theory Spec2Isabelle
  imports Complex_Main "HOL-Library.Word"
begin

section \<open>Floating-point arithmetic of the source\<close>

text \<open>
  The visualizer computes with C++ \<open>float\<close> (IEEE-754 binary32) and OpenCV's resize with
  \<open>double\<close> (binary64).  A finite floating-point value is modelled by the real number it
  denotes, and every arithmetic operation by the exact operation followed by rounding to
  the format (round to nearest, ties to even).  Overflow to infinity is not modelled: every
  operand of the program is bounded by \<open>65535 * 40\<close>.
\<close>

definition rne :: "real \<Rightarrow> int" where
  \<comment> \<open>round to the nearest integer, ties to the even one (also OpenCV's \<open>cvRound\<close>)\<close>
  "rne x = (let f = \<lfloor>x\<rfloor>; r = x - of_int f
            in if r < 1/2 then f else if 1/2 < r then f + 1
               else if even f then f else f + 1)"

fun expo_from :: "nat \<Rightarrow> int \<Rightarrow> real \<Rightarrow> int" where
  "expo_from 0 e x = e"
| "expo_from (Suc n) e x = (if 2 powi e \<le> \<bar>x\<bar> then e else expo_from n (e - 1) x)"

definition expo :: "int \<Rightarrow> int \<Rightarrow> real \<Rightarrow> int" where
  \<comment> \<open>the binary exponent of \<open>x\<close>: the largest \<open>e\<close> in \<open>[emin, emax]\<close> with \<open>2^e \<le> |x|\<close>,
      searched downwards from \<open>emax\<close>, and \<open>emin\<close> for zero and subnormal values\<close>
  "expo emin emax x = expo_from (nat (emax - emin)) emax x"

definition fl :: "nat \<Rightarrow> int \<Rightarrow> int \<Rightarrow> real \<Rightarrow> real" where
  \<comment> \<open>rounding to a binary format with \<open>p\<close> significant bits\<close>
  "fl p emin emax x =
     (let q = 2 powi (expo emin emax x - (int p - 1))
      in of_int (rne (x / q)) * q)"

definition f32 :: "real \<Rightarrow> real" where
  "f32 = fl 24 (-126) 127"

definition f64 :: "real \<Rightarrow> real" where
  "f64 = fl 53 (-1022) 1023"

definition float_to_int :: "real \<Rightarrow> int" where
  \<comment> \<open>the conversion \<open>int(x)\<close> of a float: truncation towards zero\<close>
  "float_to_int x = (if 0 \<le> x then \<lfloor>x\<rfloor> else \<lceil>x\<rceil>)"

definition cvFloor :: "real \<Rightarrow> int" where
  "cvFloor x = \<lfloor>x\<rfloor>"

section \<open>Images\<close>

datatype error = CvException | OutOfRange

text \<open>\<open>cv::Vec3b\<close>: three 8-bit channels.\<close>

record vec3b =
  ch0 :: "8 word"
  ch1 :: "8 word"
  ch2 :: "8 word"

definition vec3b_zero :: vec3b where
  "vec3b_zero = \<lparr>ch0 = 0, ch1 = 0, ch2 = 0\<rparr>"

text \<open>\<open>cv::Mat\<close>: a dense grid stored row by row.\<close>

record 'a mat =
  rows :: nat
  cols :: nat
  data :: "'a list"

definition mat_empty :: "'a mat \<Rightarrow> bool" where
  "mat_empty m = (rows m = 0 \<or> cols m = 0)"

definition zeros :: "nat \<Rightarrow> nat \<Rightarrow> 'a \<Rightarrow> 'a mat" where
  \<comment> \<open>\<open>cv::Mat::zeros(rows, cols, type)\<close>; the zero of the element type is the third argument\<close>
  "zeros r c z = \<lparr>rows = r, cols = c, data = replicate (r * c) z\<rparr>"

definition at_mat :: "'a mat \<Rightarrow> nat \<Rightarrow> nat \<Rightarrow> 'a" where
  \<comment> \<open>\<open>m.at(i, j)\<close>, unchecked as in the source; the loops of \<open>process\<close> stay inside the
      grids they read (lemma \<open>aligned_dims\<close>)\<close>
  "at_mat m i j = data m ! (i * cols m + j)"

definition set_at :: "'a mat \<Rightarrow> nat \<Rightarrow> nat \<Rightarrow> 'a \<Rightarrow> 'a mat" where
  \<comment> \<open>the assignment \<open>m.at(i, j) = v\<close>\<close>
  "set_at m i j v = m\<lparr>data := (data m)[i * cols m + j := v]\<rparr>"

definition wf_mat :: "'a mat \<Rightarrow> bool" where
  \<comment> \<open>the buffer of a matrix holds \<open>rows * cols\<close> elements\<close>
  "wf_mat m = (length (data m) = rows m * cols m)"

subsection \<open>\<open>cv::resize\<close> with \<open>INTER_NEAREST\<close>\<close>

text \<open>
  OpenCV's resize, restricted to the interpolation the source always passes.  An empty
  source, or a target size that is empty while a scale factor is not positive, fails an
  assertion of the library.  With an empty \<open>dsize\<close> the target size is computed from the
  scale factors; otherwise the scale factors are computed from the sizes.  The
  nearest-neighbour kernel reads source column \<open>min(cvFloor(x * (1/fx)), cols - 1)\<close> for
  target column \<open>x\<close>, and likewise for rows, all in double precision.
\<close>

definition nn_ofs :: "real \<Rightarrow> nat \<Rightarrow> nat \<Rightarrow> nat" where
  "nn_ofs inv_scale ssize x =
     nat (min (cvFloor (f64 (of_nat x * f64 (1 / inv_scale)))) (int ssize - 1))"

definition resizeNN :: "'a mat \<Rightarrow> nat \<Rightarrow> nat \<Rightarrow> real \<Rightarrow> real \<Rightarrow> 'a mat" where
  "resizeNN src dw dh fx fy =
     \<lparr>rows = dh, cols = dw,
      data = map (\<lambda>k. at_mat src (nn_ofs fy (rows src) (k div dw)) (nn_ofs fx (cols src) (k mod dw)))
                 [0..<dh * dw]\<rparr>"

definition cv_resize :: "'a mat \<Rightarrow> nat \<times> nat \<Rightarrow> real \<Rightarrow> real \<Rightarrow> error + 'a mat" where
  \<comment> \<open>\<open>cv::resize(src, dst, Size(w, h), fx, fy, INTER_NEAREST)\<close>\<close>
  "cv_resize src dsize fx fy =
     (if mat_empty src then Inl CvException
      else if fst dsize = 0 \<or> snd dsize = 0 then
        (if 0 < fx \<and> 0 < fy then
           (let dw = rne (f64 (of_nat (cols src) * fx));
                dh = rne (f64 (of_nat (rows src) * fy))
            in if dw \<le> 0 \<or> dh \<le> 0 then Inl CvException
               else Inr (resizeNN src (nat dw) (nat dh) fx fy))
         else Inl CvException)
      else
        Inr (resizeNN src (fst dsize) (snd dsize)
               (f64 (of_nat (fst dsize) / of_nat (cols src)))
               (f64 (of_nat (snd dsize) / of_nat (rows src)))))"

definition resizeImg :: "'a mat \<Rightarrow> nat \<Rightarrow> nat \<Rightarrow> error + 'a mat" where
  "resizeImg img w h =
     (if cols img \<noteq> w \<or> rows img \<noteq> h
      then cv_resize img (w, h) 0 0
      else Inr img)"

section \<open>The visualizer\<close>

text \<open>
  Stream parameters: the resolution and the intrinsics of a camera.  The intrinsics are
  used by the projection only and stay abstract.
\<close>

record 'k cameraParams =
  cam_w :: nat
  cam_h :: nat
  intrinsics :: 'k

record 'p frame =
  color :: "vec3b mat"
  depth :: "16 word mat"
  cloud :: "'p list"

record 'k visualizer =
  colorCamera :: "'k cameraParams"
  depthCamera :: "'k cameraParams"
  numFrames :: nat
  saveToDisk :: bool

text \<open>
  \<open>DataVisualizer::init\<close> polls the sensor manager until it is initialized or the
  cancellation token fires, then reads the stream parameters and resets the frame counter.
  The polls are the observed pairs (cancelled, initialized); \<open>None\<close> is a wait that has
  not ended within them.
\<close>

fun init_wait :: "(bool \<times> bool) list \<Rightarrow> bool" where
  "init_wait [] = False"
| "init_wait ((cancel, initialized) # ps) =
     (if \<not> cancel \<and> \<not> initialized then init_wait ps else True)"

definition init ::
  "(bool \<times> bool) list \<Rightarrow> 'k cameraParams \<Rightarrow> 'k cameraParams \<Rightarrow> 'k visualizer
     \<Rightarrow> 'k visualizer option" where
  "init polls cparams dparams st =
     (if init_wait polls
      then Some (st\<lparr>colorCamera := cparams, depthCamera := dparams, numFrames := 0\<rparr>)
      else None)"

subsection \<open>Depth synthesis from the point cloud\<close>

text \<open>
  The projection primitive \<open>project3dPointTo2d\<close> lives outside this file; it is a parameter
  \<open>prj\<close> that returns the row, the column and the quantized distance of a point, or
  \<open>None\<close> when the point does not project.  A write outside the grid is undefined
  behaviour in the source and the error \<open>OutOfRange\<close> here.
\<close>

fun projectCloud ::
  "('p \<Rightarrow> 'c \<Rightarrow> (int \<times> int \<times> 16 word) option) \<Rightarrow> 'c \<Rightarrow> 'p list \<Rightarrow> 16 word mat
     \<Rightarrow> error + 16 word mat" where
  "projectCloud prj cam [] projection = Inr projection"
| "projectCloud prj cam (p # ps) projection =
     (case prj p cam of
        None \<Rightarrow> projectCloud prj cam ps projection
      | Some (iImg, jImg, d) \<Rightarrow>
          if 0 \<le> iImg \<and> iImg < int (rows projection) \<and> 0 \<le> jImg \<and> jImg < int (cols projection)
          then projectCloud prj cam ps (set_at projection (nat iImg) (nat jImg) d)
          else Inl OutOfRange)"

definition synthDepth ::
  "('p \<Rightarrow> 'k cameraParams \<Rightarrow> (int \<times> int \<times> 16 word) option) \<Rightarrow> 'k cameraParams \<Rightarrow> 'p list
     \<Rightarrow> error + 16 word mat" where
  "synthDepth prj dcam cl = projectCloud prj dcam cl (zeros (cam_h dcam) (cam_w dcam) 0)"

definition aligned ::
  "('p \<Rightarrow> 'k cameraParams \<Rightarrow> (int \<times> int \<times> 16 word) option) \<Rightarrow> 'k visualizer \<Rightarrow> 'p frame
     \<Rightarrow> error + (vec3b mat \<times> 16 word mat)" where
  \<comment> \<open>the first part of \<open>process\<close>: the colour and the depth grid at the common resolution\<close>
  "aligned prj st fr =
     (let w = min (cam_w (colorCamera st)) (cam_w (depthCamera st));
          h = min (cam_h (colorCamera st)) (cam_h (depthCamera st))
      in case resizeImg (color fr) w h of
           Inl e \<Rightarrow> Inl e
         | Inr c \<Rightarrow>
             (case (if \<not> mat_empty (depth fr) then resizeImg (depth fr) w h
                    else (case synthDepth prj (depthCamera st) (cloud fr) of
                            Inl e \<Rightarrow> Inl e
                          | Inr projection \<Rightarrow> resizeImg projection w h)) of
                Inl e \<Rightarrow> Inl e
              | Inr d \<Rightarrow> Inr (c, d)))"

subsection \<open>Fusion\<close>

definition maxColor :: real where "maxColor = 40"
definition maxDistMm :: real where "maxDistMm = 6000"
definition minDistMm :: real where "minDistMm = 300"

definition ushort_to_float :: "16 word \<Rightarrow> real" where
  "ushort_to_float d = f32 (of_nat (unat d))"

definition outOfRange :: "16 word \<Rightarrow> bool" where
  \<comment> \<open>\<open>d <= minDistMm || d >= maxDistMm\<close>, compared as floats\<close>
  "outOfRange d = (ushort_to_float d \<le> minDistMm \<or> maxDistMm \<le> ushort_to_float d)"

definition depthColor :: "16 word \<Rightarrow> int" where
  \<comment> \<open>\<open>int(maxColor - d * maxColor / maxDistMm)\<close>\<close>
  "depthColor d =
     float_to_int (f32 (maxColor - f32 (f32 (ushort_to_float d * maxColor) / maxDistMm)))"

definition fusePixel :: "vec3b \<Rightarrow> 16 word \<Rightarrow> vec3b" where
  \<comment> \<open>what the body of the loop leaves in the pixel it visits, from the colour \<open>c\<close> and the
      depth \<open>d\<close> it reads there (lemma \<open>fuseStep_eq\<close>)\<close>
  "fusePixel c d =
     (if outOfRange d then c
      else c\<lparr>ch1 := word_of_int (min (uint (ch1 c) + depthColor d) 255)\<rparr>)"

definition fuseStep :: "vec3b mat \<Rightarrow> 16 word mat \<Rightarrow> nat \<Rightarrow> nat \<Rightarrow> vec3b mat \<Rightarrow> vec3b mat" where
  \<comment> \<open>the body of the inner loop: \<open>res = c\<close>, then the green channel when in range\<close>
  "fuseStep colorA depthA i j res =
     (let d = at_mat depthA i j;
          c = at_mat colorA i j;
          res1 = set_at res i j c
      in if outOfRange d then res1
         else set_at res1 i j
                ((at_mat res1 i j)\<lparr>ch1 := word_of_int (min (uint (ch1 c) + depthColor d) 255)\<rparr>))"

definition fusion :: "vec3b mat \<Rightarrow> 16 word mat \<Rightarrow> vec3b mat \<Rightarrow> vec3b mat" where
  "fusion colorA depthA colorWithDepth =
     fold (\<lambda>i. fold (\<lambda>j. fuseStep colorA depthA i j) [0..<cols depthA])
          [0..<rows depthA] colorWithDepth"

subsection \<open>Recording\<close>

definition saturate_uchar :: "int \<Rightarrow> 8 word" where
  \<comment> \<open>\<open>cv::saturate_cast<uchar>\<close> of an int\<close>
  "saturate_uchar v = word_of_int (max 0 (min v 255))"

definition scaleVec :: "real \<Rightarrow> vec3b \<Rightarrow> vec3b" where
  \<comment> \<open>OpenCV's \<open>float * Vec3b\<close>: each channel is \<open>saturate_cast<uchar>(channel * alpha)\<close>,
      which rounds the float product with \<open>cvRound\<close>\<close>
  "scaleVec alpha v =
     \<lparr>ch0 = saturate_uchar (rne (f32 (of_int (uint (ch0 v)) * alpha))),
      ch1 = saturate_uchar (rne (f32 (of_int (uint (ch1 v)) * alpha))),
      ch2 = saturate_uchar (rne (f32 (of_int (uint (ch2 v)) * alpha)))\<rparr>"

definition addVec :: "vec3b \<Rightarrow> vec3b \<Rightarrow> vec3b" where
  \<comment> \<open>OpenCV's \<open>Vec3b + Vec3b\<close>: the saturated sum of each channel\<close>
  "addVec a b =
     \<lparr>ch0 = saturate_uchar (uint (ch0 a) + uint (ch0 b)),
      ch1 = saturate_uchar (uint (ch1 a) + uint (ch1 b)),
      ch2 = saturate_uchar (uint (ch2 a) + uint (ch2 b))\<rparr>"

definition closeColor :: vec3b where
  "closeColor = \<lparr>ch0 = 0, ch1 = 0, ch2 = 0xff\<rparr>"

definition farColor :: vec3b where
  "farColor = \<lparr>ch0 = 0xff, ch1 = 0x00, ch2 = 0x00\<rparr>"

definition dMin :: "16 word" where "dMin = 800"
definition dMax :: "16 word" where "dMax = 2500"
definition dRange :: "16 word" where "dRange = dMax - dMin"

definition finalColor :: "16 word \<Rightarrow> vec3b" where
  \<comment> \<open>the colour of a pixel of non-zero depth \<open>d0\<close>\<close>
  "finalColor d0 =
     (let d1 = max d0 dMin;
          d = min d1 dMax
      in addVec
           (scaleVec (f32 (f32 (of_int (uint dMax - uint d)) / f32 (of_int (uint dRange))))
              closeColor)
           (scaleVec (f32 (f32 (of_int (uint d - uint dMin)) / f32 (of_int (uint dRange))))
              farColor))"

definition prettyStep :: "16 word mat \<Rightarrow> nat \<Rightarrow> nat \<Rightarrow> vec3b mat \<Rightarrow> vec3b mat" where
  "prettyStep depthA i j depthPretty =
     (let d = at_mat depthA i j
      in if d = 0 then depthPretty
         else set_at depthPretty i j (finalColor d))"

definition prettyDepth :: "16 word mat \<Rightarrow> vec3b mat" where
  "prettyDepth depthA =
     fold (\<lambda>i. fold (\<lambda>j. prettyStep depthA i j) [0..<cols depthA])
          [0..<rows depthA] (zeros (rows depthA) (cols depthA) vec3b_zero)"

text \<open>The file name: the path, the counter padded with zeros to width 8, the suffix.\<close>

fun decimal :: "nat \<Rightarrow> string" where
  "decimal n =
     (if n < 10 then [char_of (48 + n)]
      else decimal (n div 10) @ [char_of (48 + n mod 10)])"

declare decimal.simps [simp del]

definition setw_fill :: "nat \<Rightarrow> char \<Rightarrow> string \<Rightarrow> string" where
  \<comment> \<open>\<open>std::setw(n)\<close> with \<open>std::setfill(c)\<close>: pad on the left up to width \<open>n\<close>\<close>
  "setw_fill n c s = replicate (n - length s) c @ s"

definition path :: string where
  "path = ''C:'' @ [CHR 0x5C] @ ''temp'' @ [CHR 0x5C] @ ''tst'' @ [CHR 0x5C] @ ''anim''
            @ [CHR 0x5C]"

definition fileName :: "nat \<Rightarrow> string" where
  "fileName n = path @ setw_fill 8 (CHR ''0'') (decimal n) @ ''_frame.bmp''"

record effects =
  shown :: "vec3b mat"
  written :: "(string \<times> vec3b mat) option"

definition process ::
  "('p \<Rightarrow> 'k cameraParams \<Rightarrow> (int \<times> int \<times> 16 word) option) \<Rightarrow> 'k visualizer \<Rightarrow> 'p frame
     \<Rightarrow> error + ('k visualizer \<times> effects)" where
  "process prj st fr =
     (let w = min (cam_w (colorCamera st)) (cam_w (depthCamera st));
          h = min (cam_h (colorCamera st)) (cam_h (depthCamera st))
      in case aligned prj st fr of
           Inl e \<Rightarrow> Inl e
         | Inr (colorA, depthA) \<Rightarrow>
             (let colorWithDepth = fusion colorA depthA (zeros h w vec3b_zero)
              in if saveToDisk st then
                   (case cv_resize (prettyDepth depthA) (0, 0) 1 1 of
                      Inl e \<Rightarrow> Inl e
                    | Inr depthPrettyResized \<Rightarrow>
                        Inr (st\<lparr>numFrames := numFrames st + 1\<rparr>,
                             \<lparr>shown = colorWithDepth,
                              written = Some (fileName (numFrames st), depthPrettyResized)\<rparr>))
                 else
                   Inr (st\<lparr>numFrames := numFrames st + 1\<rparr>,
                        \<lparr>shown = colorWithDepth, written = None\<rparr>)))"

text \<open>
  Modelled from the spec: the consumer loop that calls \<open>process\<close> is inherited from
  \<open>FrameConsumer\<close>, which is not in this file; it hands every frame it fetches from the
  queue to \<open>process\<close>, one after the other.  An exception of \<open>process\<close> ends the loop.
\<close>

fun processAll ::
  "('p \<Rightarrow> 'k cameraParams \<Rightarrow> (int \<times> int \<times> 16 word) option) \<Rightarrow> 'k visualizer
     \<Rightarrow> 'p frame list \<Rightarrow> error + ('k visualizer \<times> effects list)" where
  "processAll prj st [] = Inr (st, [])"
| "processAll prj st (fr # frs) =
     (case process prj st fr of
        Inl e \<Rightarrow> Inl e
      | Inr (st1, out) \<Rightarrow>
          (case processAll prj st1 frs of
             Inl e \<Rightarrow> Inl e
           | Inr (st2, outs) \<Rightarrow> Inr (st2, out # outs)))"

section \<open>The grabber\<close>

text \<open>
  One iteration of \<open>RealsenseGrabber::run\<close> sees the status of \<open>AcquireFrame\<close>, the sample
  of \<open>QuerySample\<close> (possibly null), its two images (possibly null) and, for each image,
  its size, the status of \<open>AcquireAccess\<close> and the buffer \<open>planes[0]\<close>.
\<close>

definition PXC_STATUS_NO_ERROR :: int where
  "PXC_STATUS_NO_ERROR = 0"

record 'a pxc_image =
  info_width :: nat
  info_height :: nat
  access_status :: int
  planes0 :: "'a list"

record pxc_sample =
  sample_color :: "vec3b pxc_image option"
  sample_depth :: "16 word pxc_image option"

record acquired =
  acquire_status :: int
  query_sample :: "pxc_sample option"

datatype log_entry =
    SampleIsNull | ColorIsNull | DepthIsNull
  | CapturedColor nat | CapturedDepth nat
  | ColorAccessFailed nat int | DepthAccessFailed nat int
  | GrabbingFinished int

fun is_error :: "log_entry \<Rightarrow> bool" where
  "is_error SampleIsNull = True"
| "is_error ColorIsNull = True"
| "is_error DepthIsNull = True"
| "is_error (ColorAccessFailed n s) = True"
| "is_error (DepthAccessFailed n s) = True"
| "is_error e = False"

text \<open>
  The state of the grabber: the registered queues (a queue is the list of the frames put
  into it, oldest first), the local counter of captured samples, and the log.
\<close>

record 'p grabber =
  queues :: "'p frame list list"
  captured :: nat
  tlog :: "log_entry list"

definition wrapMat :: "'a pxc_image \<Rightarrow> 'a mat" where
  \<comment> \<open>\<open>cv::Mat(info.height, info.width, type, planes[0])\<close>\<close>
  "wrapMat img = \<lparr>rows = info_height img, cols = info_width img, data = planes0 img\<rparr>"

definition makeFrame :: "vec3b pxc_image \<Rightarrow> 16 word pxc_image \<Rightarrow> 'p frame" where
  \<comment> \<open>Modelled from the spec: the constructor \<open>Frame(colorMat, depthMat)\<close> is not in this file;
      a frame built from two dense buffers has no point cloud\<close>
  "makeFrame c d = \<lparr>color = wrapMat c, depth = wrapMat d, cloud = []\<rparr>"

definition put_all :: "'p frame \<Rightarrow> 'p grabber \<Rightarrow> 'p grabber" where
  \<comment> \<open>\<open>for (auto queue : data->queues) queue->put(frame)\<close>\<close>
  "put_all fr g = g\<lparr>queues := map (\<lambda>q. q @ [fr]) (queues g)\<rparr>"

definition say :: "log_entry \<Rightarrow> 'p grabber \<Rightarrow> 'p grabber" where
  "say e g = g\<lparr>tlog := tlog g @ [e]\<rparr>"

definition grabBody :: "acquired \<Rightarrow> 'p grabber \<Rightarrow> 'p grabber" where
  \<comment> \<open>the body of the loop, entered when the acquire status is not below the threshold;
      every \<open>continue\<close> is a branch that returns without a frame\<close>
  "grabBody a g =
     (case query_sample a of
        None \<Rightarrow> say SampleIsNull g
      | Some smp \<Rightarrow>
          (case sample_color smp of
             None \<Rightarrow> say ColorIsNull g
           | Some c \<Rightarrow>
               (case sample_depth smp of
                  None \<Rightarrow> say DepthIsNull g
                | Some d \<Rightarrow>
                    (let n = captured g + 1;
                         g1 = say (CapturedDepth n) (say (CapturedColor n) (g\<lparr>captured := n\<rparr>))
                     in if access_status c < PXC_STATUS_NO_ERROR
                        then say (ColorAccessFailed n (access_status c)) g1
                        else if access_status d < PXC_STATUS_NO_ERROR
                        then say (DepthAccessFailed n (access_status d)) g1
                        else put_all (makeFrame c d) g1))))"

datatype run_state = AwaitingSample | Finished int

text \<open>
  The loop over the sensor's answers.  The loop has no exit of its own: after the answers
  seen so far it is either blocked in \<open>AcquireFrame\<close> or has finished with the status
  that ended it.
\<close>

fun grabber_run :: "acquired list \<Rightarrow> 'p grabber \<Rightarrow> 'p grabber \<times> run_state" where
  "grabber_run [] g = (g, AwaitingSample)"
| "grabber_run (a # as) g =
     (if acquire_status a \<ge> PXC_STATUS_NO_ERROR
      then grabber_run as (grabBody a g)
      else (say (GrabbingFinished (acquire_status a)) g, Finished (acquire_status a)))"

section \<open>Notions of the specification\<close>

definition hits ::
  "('p \<Rightarrow> 'c \<Rightarrow> (int \<times> int \<times> 16 word) option) \<Rightarrow> 'c \<Rightarrow> 'p list \<Rightarrow> nat \<Rightarrow> nat
     \<Rightarrow> 16 word list" where
  \<comment> \<open>the distances of the cloud points that project to pixel \<open>(i, j)\<close>, in cloud order\<close>
  "hits prj cam cl i j =
     map (\<lambda>(iImg, jImg, d). d)
       (filter (\<lambda>(iImg, jImg, d). iImg = int i \<and> jImg = int j)
          (List.map_filter (\<lambda>p. prj p cam) cl))"

definition lastHit ::
  "('p \<Rightarrow> 'c \<Rightarrow> (int \<times> int \<times> 16 word) option) \<Rightarrow> 'c \<Rightarrow> 'p list \<Rightarrow> nat \<Rightarrow> nat
     \<Rightarrow> 16 word" where
  \<comment> \<open>last write wins; a pixel never written is zero\<close>
  "lastHit prj cam cl i j =
     (case hits prj cam cl i j of [] \<Rightarrow> 0 | d # ds \<Rightarrow> last (d # ds))"

definition inFrame ::
  "('p \<Rightarrow> 'k cameraParams \<Rightarrow> (int \<times> int \<times> 16 word) option) \<Rightarrow> 'k cameraParams \<Rightarrow> 'p
     \<Rightarrow> bool" where
  \<comment> \<open>the contract of the projection: a reported pixel lies in the camera's grid\<close>
  "inFrame prj cam p =
     (case prj p cam of
        None \<Rightarrow> True
      | Some (iImg, jImg, d) \<Rightarrow>
          0 \<le> iImg \<and> iImg < int (cam_h cam) \<and> 0 \<le> jImg \<and> jImg < int (cam_w cam))"


definition clampDepth :: "16 word \<Rightarrow> real" where
  \<comment> \<open>the depth clamped into [800, 2500]\<close>
  "clampDepth d = of_nat (min (max (unat d) 800) 2500)"

definition interpolate :: "vec3b \<Rightarrow> vec3b \<Rightarrow> real \<Rightarrow> (vec3b \<Rightarrow> 8 word) \<Rightarrow> real" where
  \<comment> \<open>the exact linear interpolation of one channel, at position \<open>t\<close> between two colours\<close>
  "interpolate near far t ch = (1 - t) * of_nat (unat (ch near)) + t * of_nat (unat (ch far))"

definition transient :: "acquired \<Rightarrow> bool" where
  \<comment> \<open>a sample that is skipped: no sample, no colour or depth buffer, or a failed access\<close>
  "transient a =
     (case query_sample a of
        None \<Rightarrow> True
      | Some smp \<Rightarrow>
          (case (sample_color smp, sample_depth smp) of
             (Some c, Some d) \<Rightarrow>
               access_status c < PXC_STATUS_NO_ERROR \<or> access_status d < PXC_STATUS_NO_ERROR
           | _ \<Rightarrow> True))"

definition frameOf :: "acquired \<Rightarrow> 'p frame option" where
  \<comment> \<open>the frame made of the two buffers of a sample, when it has both\<close>
  "frameOf a =
     (case query_sample a of
        None \<Rightarrow> None
      | Some smp \<Rightarrow>
          (case (sample_color smp, sample_depth smp) of
             (Some c, Some d) \<Rightarrow> Some (makeFrame c d)
           | _ \<Rightarrow> None))"

definition acquiredOk :: "acquired \<Rightarrow> bool" where
  "acquiredOk a = (acquire_status a \<ge> PXC_STATUS_NO_ERROR)"

definition delivered :: "acquired list \<Rightarrow> 'p frame list" where
  \<comment> \<open>the frames of the samples that are not skipped, up to the first terminal status\<close>
  "delivered evs =
     List.map_filter frameOf (filter (\<lambda>a. \<not> transient a) (takeWhile acquiredOk evs))"

definition digitsValue :: "string \<Rightarrow> nat" where
  \<comment> \<open>the number a string of decimal digits denotes\<close>
  "digitsValue s = foldl (\<lambda>acc c. 10 * acc + (of_char c - 48)) 0 s"

definition isDigit :: "char \<Rightarrow> bool" where
  "isDigit c = (48 \<le> (of_char c :: nat) \<and> (of_char c :: nat) \<le> 57)"

section \<open>Example inputs\<close>

definition exCam :: "nat \<Rightarrow> nat \<Rightarrow> unit cameraParams" where
  "exCam w h = \<lparr>cam_w = w, cam_h = h, intrinsics = ()\<rparr>"

definition exState :: "bool \<Rightarrow> unit visualizer" where
  \<comment> \<open>both streams one pixel wide and high, no frame processed yet\<close>
  "exState recording =
     \<lparr>colorCamera = exCam 1 1, depthCamera = exCam 1 1, numFrames = 0, saveToDisk = recording\<rparr>"

definition gray :: vec3b where
  "gray = \<lparr>ch0 = 128, ch1 = 128, ch2 = 128\<rparr>"

definition grayImage :: "vec3b mat" where
  "grayImage = \<lparr>rows = 1, cols = 1, data = [gray]\<rparr>"

definition depthImage :: "16 word \<Rightarrow> 16 word mat" where
  "depthImage d = \<lparr>rows = 1, cols = 1, data = [d]\<rparr>"

definition exFrame :: "16 word \<Rightarrow> (int \<times> int \<times> 16 word) option frame" where
  \<comment> \<open>one gray pixel at depth \<open>d\<close>\<close>
  "exFrame d = \<lparr>color = grayImage, depth = depthImage d, cloud = []\<rparr>"

definition cloudFrame ::
  "(int \<times> int \<times> 16 word) option list \<Rightarrow> (int \<times> int \<times> 16 word) option frame" where
  \<comment> \<open>one gray pixel, no dense depth, and a point cloud\<close>
  "cloudFrame cl = \<lparr>color = grayImage, depth = \<lparr>rows = 0, cols = 0, data = []\<rparr>, cloud = cl\<rparr>"

definition tableProjection ::
  "(int \<times> int \<times> 16 word) option \<Rightarrow> unit cameraParams \<Rightarrow> (int \<times> int \<times> 16 word) option"
  where
  \<comment> \<open>a projection for the examples: every point carries its own answer\<close>
  "tableProjection p cam = p"

definition exImage :: "'a \<Rightarrow> int \<Rightarrow> 'a pxc_image" where
  "exImage px s = \<lparr>info_width = 1, info_height = 1, access_status = s, planes0 = [px]\<rparr>"

definition exSample :: "int \<Rightarrow> int \<Rightarrow> int \<Rightarrow> acquired" where
  \<comment> \<open>a sample with both buffers, with the three statuses given\<close>
  "exSample s sc sd =
     \<lparr>acquire_status = s,
      query_sample = Some \<lparr>sample_color = Some (exImage gray sc),
                              sample_depth = Some (exImage 1000 sd)\<rparr>\<rparr>"

definition exGrabber :: "unit grabber" where
  \<comment> \<open>two registered queues, both empty\<close>
  "exGrabber = \<lparr>queues = [[], []], captured = 0, tlog = []\<rparr>"

section \<open>Properties of the floating-point model\<close>

text \<open>The model at a value that is not representable: one third as a \<open>float\<close>.\<close>

lemma f32_one_third: "f32 (1 / 3) = 11184811 / 33554432"
  by code_simp

lemma rne_err: "\<bar>of_int (rne x) - x\<bar> \<le> 1/2"
proof -
  have "of_int \<lfloor>x\<rfloor> \<le> x" "x < of_int \<lfloor>x\<rfloor> + 1" by linarith+
  then show ?thesis unfolding rne_def Let_def by (simp add: abs_le_iff)
qed

lemma rne_of_int: "rne (of_int n) = n"
  by (simp add: rne_def)

lemma rne_nonneg: "0 \<le> x \<Longrightarrow> 0 \<le> rne x"
  by (auto simp: rne_def Let_def)

lemma expo_from_cases:
  "expo_from n e x = e - int n \<or> 2 powi (expo_from n e x) \<le> \<bar>x\<bar>"
proof (induction n arbitrary: e)
  case 0
  show ?case by simp
next
  case (Suc n)
  from Suc.IH[of "e - 1"] show ?case by (cases "2 powi e \<le> \<bar>x\<bar>") auto
qed

lemma expo_from_largest:
  "expo_from n e x < e' \<Longrightarrow> e' \<le> e \<Longrightarrow> \<not> 2 powi e' \<le> \<bar>x\<bar>"
proof (induction n arbitrary: e)
  case 0
  then show ?case by simp
next
  case (Suc n)
  show ?case
  proof (cases "2 powi e \<le> \<bar>x\<bar>")
    case True
    with Suc.prems show ?thesis by simp
  next
    case False
    show ?thesis
    proof (cases "e' = e")
      case True
      with False show ?thesis by simp
    next
      case ne: False
      with Suc.prems False have "expo_from n (e - 1) x < e'" "e' \<le> e - 1" by simp_all
      then show ?thesis by (rule Suc.IH)
    qed
  qed
qed

lemma expo_cases:
  "emin \<le> emax \<Longrightarrow> expo emin emax x = emin \<or> (2 powi (expo emin emax x) \<le> \<bar>x\<bar>)"
  unfolding expo_def using expo_from_cases[of "nat (emax - emin)" emax x] by auto

lemma expo_largest:
  "expo emin emax x < e' \<Longrightarrow> e' \<le> emax \<Longrightarrow> \<not> 2 powi e' \<le> \<bar>x\<bar>"
  unfolding expo_def by (rule expo_from_largest)

lemma expo_upper:
  assumes "\<bar>x\<bar> < 2 powi K" "emin < K" "emin \<le> emax"
  shows "expo emin emax x < K"
proof -
  from expo_cases[OF assms(3), of x] show ?thesis
  proof
    assume "expo emin emax x = emin" with assms show ?thesis by simp
  next
    assume "2 powi (expo emin emax x) \<le> \<bar>x\<bar>"
    with assms have "(2::real) powi (expo emin emax x) < 2 powi K" by linarith
    then show ?thesis
      using power_int_increasing[of K "expo emin emax x" "2::real"] by (cases "expo emin emax x < K") auto
  qed
qed

lemma fl_err:
  assumes "\<bar>x\<bar> < 2 powi K" "emin < K" "emin \<le> emax"
  shows "\<bar>fl p emin emax x - x\<bar> \<le> 2 powi (K - int p - 1)"
proof -
  define e where "e = expo emin emax x"
  define q :: real where "q = 2 powi (e - (int p - 1))"
  have qpos: "0 < q" by (simp add: q_def)
  have "e < K" unfolding e_def by (rule expo_upper[OF assms])
  then have "e - (int p - 1) \<le> K - int p" by simp
  then have qle: "q \<le> 2 powi (K - int p)" unfolding q_def
    by (intro power_int_increasing) auto
  have "fl p emin emax x - x = (of_int (rne (x / q)) - x / q) * q"
    using qpos by (simp add: fl_def e_def q_def Let_def field_simps)
  then have "\<bar>fl p emin emax x - x\<bar> = \<bar>of_int (rne (x / q)) - x / q\<bar> * q"
    using qpos by (simp add: abs_mult)
  also have "\<dots> \<le> (1/2) * q"
    using rne_err[of "x / q"] qpos by (intro mult_right_mono) auto
  also have "\<dots> \<le> (1/2) * 2 powi (K - int p)" using qle by simp
  also have "\<dots> = 2 powi (K - int p - 1)"
    by (simp add: power_int_diff)
  finally show ?thesis .
qed

lemma fl_of_int:
  assumes "\<bar>n\<bar> < 2 ^ p" "emin \<le> 0" "0 < p" "emin \<le> emax"
  shows "fl p emin emax (of_int n) = of_int n"
proof -
  define e where "e = expo emin emax (of_int n)"
  have "real_of_int \<bar>n\<bar> < of_int (2 ^ p)" using assms(1) by (simp only: of_int_less_iff)
  then have "\<bar>real_of_int n\<bar> < 2 powi (int p)" by simp
  moreover have "emin < int p" using assms(2,3) by simp
  ultimately have "e < int p" unfolding e_def using assms(4) by (rule expo_upper)
  define m where "m = nat (int p - 1 - e)"
  have em: "e - (int p - 1) = - int m" using \<open>e < int p\<close> by (simp add: m_def)
  have q: "(2::real) powi (e - (int p - 1)) = 1 / 2 ^ m"
    unfolding em by (simp add: power_int_minus_divide)
  have "real_of_int n / (1 / 2 ^ m) = of_int (n * 2 ^ m)" by simp
  then have "rne (real_of_int n / (1 / 2 ^ m)) = n * 2 ^ m" by (simp only: rne_of_int)
  then show ?thesis
    unfolding fl_def Let_def e_def[symmetric] q by simp
qed


lemma fl_nonneg: "0 \<le> x \<Longrightarrow> 0 \<le> fl p emin emax x"
  unfolding fl_def Let_def by (intro mult_nonneg_nonneg) (auto intro!: rne_nonneg)

lemma f32_of_int: "\<bar>n\<bar> < 16777216 \<Longrightarrow> f32 (of_int n) = of_int n"
  unfolding f32_def by (rule fl_of_int) auto

lemma f32_of_nat: "n < 16777216 \<Longrightarrow> f32 (of_nat n) = of_nat n"
  using f32_of_int[of "int n"] by simp

lemma f64_of_nat: "n < 2 ^ 53 \<Longrightarrow> f64 (of_nat n) = of_nat n"
  using fl_of_int[where n = "int n" and p = 53 and emin = "-1022" and emax = 1023] by (simp add: f64_def)

lemma f32_err_64: "\<bar>x\<bar> < 64 \<Longrightarrow> \<bar>f32 x - x\<bar> \<le> 1 / 524288"
  using fl_err[where x = x and K = 6 and emin = "-126" and p = 24 and emax = 127] by (simp add: f32_def power_int_minus_divide)

lemma ushort_to_float_eq: "ushort_to_float d = of_nat (unat d)"
proof -
  have "unat d < 2 ^ 16" using unsigned_less[of d] by simp
  then show ?thesis unfolding ushort_to_float_def by (intro f32_of_nat) simp
qed

lemma outOfRange_iff: "outOfRange d \<longleftrightarrow> unat d \<le> 300 \<or> 6000 \<le> unat d"
proof -
  have "(real (unat d) \<le> 300) = (unat d \<le> 300)"
    using of_nat_le_iff[of "unat d" 300, where ?'a = real] by simp
  moreover have "(6000 \<le> real (unat d)) = (6000 \<le> unat d)"
    using of_nat_le_iff[of 6000 "unat d", where ?'a = real] by simp
  ultimately show ?thesis
    by (simp add: outOfRange_def ushort_to_float_eq minDistMm_def maxDistMm_def)
qed

lemma ceil_div_150: "(6000 - a) div 150 = 40 - (a + 149) div (150::int)"
proof -
  define t where "t = (a + 149) div 150"
  define u where "u = (a + 149) mod 150"
  have "a + 149 = 150 * t + u" "0 \<le> u" "u < 150" by (simp_all add: t_def u_def)
  then have "6000 - a = 150 * (40 - t) + (149 - u)" "0 \<le> 149 - u" "149 - u < 150" by simp_all
  then show ?thesis unfolding t_def[symmetric] by (rule int_div_pos_eq)
qed

lemma depthColor_eq:
  assumes lo: "300 < unat d" and hi: "unat d < 6000"
  shows "depthColor d = \<lfloor>40 - real (unat d) * 40 / 6000\<rfloor>"
    and "0 \<le> depthColor d" and "depthColor d \<le> 37"
    and "depthColor d = 40 - (int (unat d) + 149) div 150"
proof -
  define n where "n = unat d"
  define x :: real where "x = of_nat n"
  define m :: int where "m = 6000 - int n"
  define k where "k = m div 150"
  define r where "r = m mod 150"
  have nb: "300 < n" "n < 6000" using lo hi by (simp_all add: n_def)
  have mkr: "m = 150 * k + r" "0 \<le> r" "r < 150" by (simp_all add: k_def r_def)
  have mb: "1 \<le> m" "m \<le> 5699" using nb by (simp_all add: m_def)
  have kb: "0 \<le> k" "k \<le> 37" using mb by (simp_all add: k_def)
  have xm: "x = 6000 - of_int m" by (simp add: x_def m_def)
  have y: "40 - x * 40 / 6000 = of_int k + of_int r / 150"
    unfolding xm by (simp add: mkr(1) field_simps)
  have fy: "\<lfloor>40 - x * 40 / 6000\<rfloor> = k"
    unfolding y using mkr(2,3) by (intro floor_unique) (simp_all add: field_simps)
  have prod: "f32 (x * maxColor) = x * 40"
  proof -
    have "f32 (of_nat (n * 40)) = of_nat (n * 40)" using nb by (intro f32_of_nat) simp
    then show ?thesis by (simp add: x_def maxColor_def)
  qed
  define q where "q = f32 (x * 40 / maxDistMm)"
  define s where "s = f32 (maxColor - q)"
  have dc: "depthColor d = float_to_int s"
    by (simp add: depthColor_def ushort_to_float_eq n_def[symmetric] x_def[symmetric] prod
        q_def s_def)
  have sk: "of_int k \<le> s \<and> s < of_int k + 1"
  proof (cases "r = 0")
    case True
    have "x * 40 / maxDistMm = of_int (40 - k)"
      unfolding xm maxDistMm_def by (simp add: mkr(1) True field_simps)
    then have "q = of_int (40 - k)" unfolding q_def using kb
      by (simp only: ) (rule f32_of_int, simp)
    then have "maxColor - q = of_int k" by (simp add: maxColor_def)
    then have "s = of_int k" unfolding s_def using kb
      by (simp only: ) (rule f32_of_int, simp)
    then show ?thesis by simp
  next
    case False
    then have r1: "1 \<le> r" "r \<le> 149" using mkr(2,3) by simp_all
    have x0: "0 \<le> x" "x < 6000" using nb by (simp_all add: x_def)
    have "\<bar>x * 40 / maxDistMm\<bar> < 64" using x0 by (simp add: maxDistMm_def abs_if)
    then have e1: "\<bar>q - x * 40 / 6000\<bar> \<le> 1 / 524288"
      unfolding q_def using f32_err_64[of "x * 40 / maxDistMm"] by (simp add: maxDistMm_def)
    have "\<bar>40 - x * 40 / 6000\<bar> \<le> 40" using x0 by (simp add: abs_if)
    with e1 have "\<bar>maxColor - q\<bar> < 64" unfolding maxColor_def by linarith
    then have e2: "\<bar>s - (40 - q)\<bar> \<le> 1 / 524288"
      unfolding s_def using f32_err_64[of "maxColor - q"] by (simp add: maxColor_def)
    from e1 e2 have e3: "\<bar>s - (of_int k + of_int r / 150)\<bar> \<le> 1 / 262144"
      unfolding y[symmetric] by linarith
    have "(1::real) / 150 \<le> of_int r / 150" "real_of_int r / 150 \<le> 149 / 150"
      using r1 by simp_all
    with e3 show ?thesis by linarith
  qed
  have "(0::real) \<le> of_int k" using kb(1) by simp
  with sk have s0: "0 \<le> s" by linarith
  have "\<lfloor>s\<rfloor> = k" using sk by (intro floor_unique) simp_all
  then have dk: "depthColor d = k" using s0 by (simp add: dc float_to_int_def)
  show "depthColor d = \<lfloor>40 - real (unat d) * 40 / 6000\<rfloor>"
    using dk fy by (simp add: x_def n_def)
  show "0 \<le> depthColor d" "depthColor d \<le> 37" using dk kb by simp_all
  show "depthColor d = 40 - (int (unat d) + 149) div 150"
    unfolding dk k_def m_def n_def by (rule ceil_div_150)
qed

section \<open>Matrices and pixel loops\<close>

lemma idx_inj:
  assumes "j < (c::nat)" "j' < c"
  shows "i * c + j = i' * c + j' \<longleftrightarrow> i = i' \<and> j = j'"
proof
  assume eq: "i * c + j = i' * c + j'"
  have "(i * c + j) div c = i" "(i' * c + j') div c = i'" using assms by simp_all
  with eq have "i = i'" by simp
  with eq show "i = i' \<and> j = j'" by simp
qed simp

lemma idx_bound: "i < (r::nat) \<Longrightarrow> j < c \<Longrightarrow> i * c + j < r * c"
proof -
  assume a: "i < r" "j < c"
  then have "i * c + j < i * c + c" by simp
  also have "\<dots> = Suc i * c" by simp
  also have "\<dots> \<le> r * c" using a(1) by (intro mult_le_mono1) simp
  finally show ?thesis .
qed

lemma set_at_dims [simp]:
  "rows (set_at m i j v) = rows m" "cols (set_at m i j v) = cols m"
  "wf_mat (set_at m i j v) = wf_mat m"
  by (simp_all add: set_at_def wf_mat_def)

lemma at_set_at:
  assumes "wf_mat m" "i < rows m" "j < cols m" "j' < cols m"
  shows "at_mat (set_at m i j v) i' j' = (if i' = i \<and> j' = j then v else at_mat m i' j')"
proof -
  have "i * cols m + j < length (data m)"
    using assms idx_bound[of i "rows m" j "cols m"] by (simp add: wf_mat_def)
  then show ?thesis
    using idx_inj[of j "cols m" j' i i'] assms
    by (auto simp: at_mat_def set_at_def nth_list_update)
qed

lemma zeros_dims [simp]:
  "rows (zeros r c z) = r" "cols (zeros r c z) = c" "wf_mat (zeros r c z)"
  by (simp_all add: zeros_def wf_mat_def)

lemma at_zeros: "i < r \<Longrightarrow> j < c \<Longrightarrow> at_mat (zeros r c z) i j = z"
  using idx_bound[of i r j c] by (simp add: zeros_def at_mat_def)

text \<open>A doubly nested loop whose body rewrites the pixel it visits.\<close>

lemma inner_loop:
  assumes step: "\<And>j m. wf_mat m \<Longrightarrow> rows m = R \<Longrightarrow> cols m = C \<Longrightarrow> j < C \<Longrightarrow>
      wf_mat (step j m) \<and> rows (step j m) = R \<and> cols (step j m) = C \<and>
      (\<forall>i'<R. \<forall>j'<C. at_mat (step j m) i' j' =
          (if i' = i \<and> j' = j then G j (at_mat m i j) else at_mat m i' j'))"
    and ma: "wf_mat ma" "rows ma = R" "cols ma = C"
    and n: "n \<le> C" and i: "i < R"
  shows "wf_mat (fold step [0..<n] ma) \<and> rows (fold step [0..<n] ma) = R \<and>
         cols (fold step [0..<n] ma) = C \<and>
         (\<forall>i'<R. \<forall>j'<C. at_mat (fold step [0..<n] ma) i' j' =
            (if i' = i \<and> j' < n then G j' (at_mat ma i j') else at_mat ma i' j'))"
  using n
proof (induction n)
  case 0
  show ?case using ma by simp
next
  case (Suc n)
  define m where "m = fold step [0..<n] ma"
  have ih: "wf_mat m" "rows m = R" "cols m = C"
    "\<forall>i'<R. \<forall>j'<C. at_mat m i' j' =
        (if i' = i \<and> j' < n then G j' (at_mat ma i j') else at_mat ma i' j')"
    using Suc unfolding m_def by simp_all
  have nC: "n < C" using Suc.prems by simp
  have f: "fold step [0..<Suc n] ma = step n m" by (simp add: m_def)
  from step[OF ih(1-3) nC] ih(4) i nC show ?case
    unfolding f by (auto simp: less_Suc_eq)
qed

lemma outer_loop:
  assumes step: "\<And>i j m. wf_mat m \<Longrightarrow> rows m = R \<Longrightarrow> cols m = C \<Longrightarrow> i < R \<Longrightarrow> j < C \<Longrightarrow>
      wf_mat (step i j m) \<and> rows (step i j m) = R \<and> cols (step i j m) = C \<and>
      (\<forall>i'<R. \<forall>j'<C. at_mat (step i j m) i' j' =
          (if i' = i \<and> j' = j then G i j (at_mat m i j) else at_mat m i' j'))"
    and ma: "wf_mat ma" "rows ma = R" "cols ma = C"
    and n: "n \<le> R"
  shows "wf_mat (fold (\<lambda>i. fold (step i) [0..<C]) [0..<n] ma) \<and>
         rows (fold (\<lambda>i. fold (step i) [0..<C]) [0..<n] ma) = R \<and>
         cols (fold (\<lambda>i. fold (step i) [0..<C]) [0..<n] ma) = C \<and>
         (\<forall>i'<R. \<forall>j'<C. at_mat (fold (\<lambda>i. fold (step i) [0..<C]) [0..<n] ma) i' j' =
            (if i' < n then G i' j' (at_mat ma i' j') else at_mat ma i' j'))"
  using n
proof (induction n)
  case 0
  show ?case using ma by simp
next
  case (Suc n)
  define m where "m = fold (\<lambda>i. fold (step i) [0..<C]) [0..<n] ma"
  have ih: "wf_mat m" "rows m = R" "cols m = C"
    "\<forall>i'<R. \<forall>j'<C. at_mat m i' j' =
        (if i' < n then G i' j' (at_mat ma i' j') else at_mat ma i' j')"
    using Suc unfolding m_def by simp_all
  have nR: "n < R" using Suc.prems by simp
  have f: "fold (\<lambda>i. fold (step i) [0..<C]) [0..<Suc n] ma = fold (step n) [0..<C] m"
    by (simp add: m_def)
  have st: "\<And>j m. wf_mat m \<Longrightarrow> rows m = R \<Longrightarrow> cols m = C \<Longrightarrow> j < C \<Longrightarrow>
      wf_mat (step n j m) \<and> rows (step n j m) = R \<and> cols (step n j m) = C \<and>
      (\<forall>i'<R. \<forall>j'<C. at_mat (step n j m) i' j' =
          (if i' = n \<and> j' = j then G n j (at_mat m n j) else at_mat m i' j'))"
    by (rule step[OF _ _ _ nR])
  have "wf_mat (fold (step n) [0..<C] m) \<and> rows (fold (step n) [0..<C] m) = R \<and>
         cols (fold (step n) [0..<C] m) = C \<and>
         (\<forall>i'<R. \<forall>j'<C. at_mat (fold (step n) [0..<C] m) i' j' =
            (if i' = n \<and> j' < C then G n j' (at_mat m n j') else at_mat m i' j'))"
    by (rule inner_loop[where step = "step n" and G = "G n" and i = n,
          OF st ih(1-3) order_refl nR])
  with ih(4) nR show ?case unfolding f by (auto simp: less_Suc_eq)
qed

lemma loop2:
  assumes step: "\<And>i j m. wf_mat m \<Longrightarrow> rows m = R \<Longrightarrow> cols m = C \<Longrightarrow> i < R \<Longrightarrow> j < C \<Longrightarrow>
      wf_mat (step i j m) \<and> rows (step i j m) = R \<and> cols (step i j m) = C \<and>
      (\<forall>i'<R. \<forall>j'<C. at_mat (step i j m) i' j' =
          (if i' = i \<and> j' = j then G i j (at_mat m i j) else at_mat m i' j'))"
    and ma: "wf_mat ma" "rows ma = R" "cols ma = C"
  shows "wf_mat (fold (\<lambda>i. fold (step i) [0..<C]) [0..<R] ma)"
    and "rows (fold (\<lambda>i. fold (step i) [0..<C]) [0..<R] ma) = R"
    and "cols (fold (\<lambda>i. fold (step i) [0..<C]) [0..<R] ma) = C"
    and "\<And>i j. i < R \<Longrightarrow> j < C \<Longrightarrow>
           at_mat (fold (\<lambda>i. fold (step i) [0..<C]) [0..<R] ma) i j = G i j (at_mat ma i j)"
proof -
  have *: "wf_mat (fold (\<lambda>i. fold (step i) [0..<C]) [0..<R] ma) \<and>
         rows (fold (\<lambda>i. fold (step i) [0..<C]) [0..<R] ma) = R \<and>
         cols (fold (\<lambda>i. fold (step i) [0..<C]) [0..<R] ma) = C \<and>
         (\<forall>i'<R. \<forall>j'<C. at_mat (fold (\<lambda>i. fold (step i) [0..<C]) [0..<R] ma) i' j' =
            (if i' < R then G i' j' (at_mat ma i' j') else at_mat ma i' j'))"
    by (rule outer_loop[where step = step and G = G and n = R]) (fact step ma order_refl)+
  show "wf_mat (fold (\<lambda>i. fold (step i) [0..<C]) [0..<R] ma)"
    and "rows (fold (\<lambda>i. fold (step i) [0..<C]) [0..<R] ma) = R"
    and "cols (fold (\<lambda>i. fold (step i) [0..<C]) [0..<R] ma) = C"
    using * by blast+
  show "\<And>i j. i < R \<Longrightarrow> j < C \<Longrightarrow>
           at_mat (fold (\<lambda>i. fold (step i) [0..<C]) [0..<R] ma) i j = G i j (at_mat ma i j)"
    using * by simp
qed

lemma set_at_twice: "set_at (set_at m i j v) i j v' = set_at m i j v'"
  by (simp add: set_at_def)

lemma fuseStep_eq:
  assumes "wf_mat res" "i < rows res" "j < cols res"
  shows "fuseStep colorA depthA i j res =
           set_at res i j (fusePixel (at_mat colorA i j) (at_mat depthA i j))"
proof (cases "outOfRange (at_mat depthA i j)")
  case True
  then show ?thesis by (simp add: fuseStep_def fusePixel_def)
next
  case False
  have "at_mat (set_at res i j (at_mat colorA i j)) i j = at_mat colorA i j"
    using assms by (simp add: at_set_at)
  with False show ?thesis
    by (simp add: fuseStep_def fusePixel_def Let_def set_at_twice)
qed

lemma fuseStep_spec:
  assumes "wf_mat m" "rows m = R" "cols m = C" "i < R" "j < C"
  shows "wf_mat (fuseStep colorA depthA i j m) \<and> rows (fuseStep colorA depthA i j m) = R \<and>
         cols (fuseStep colorA depthA i j m) = C \<and>
         (\<forall>i'<R. \<forall>j'<C. at_mat (fuseStep colorA depthA i j m) i' j' =
            (if i' = i \<and> j' = j then fusePixel (at_mat colorA i j) (at_mat depthA i j)
             else at_mat m i' j'))"
proof -
  have "fuseStep colorA depthA i j m =
          set_at m i j (fusePixel (at_mat colorA i j) (at_mat depthA i j))"
    using assms by (intro fuseStep_eq) simp_all
  then show ?thesis using assms by (simp add: at_set_at)
qed

lemma fusion_spec:
  assumes res: "wf_mat res" "rows res = rows depthA" "cols res = cols depthA"
  shows "wf_mat (fusion colorA depthA res)"
    and "rows (fusion colorA depthA res) = rows depthA"
    and "cols (fusion colorA depthA res) = cols depthA"
    and "\<And>i j. i < rows depthA \<Longrightarrow> j < cols depthA \<Longrightarrow>
          at_mat (fusion colorA depthA res) i j
            = fusePixel (at_mat colorA i j) (at_mat depthA i j)"
proof -
  note L = loop2[where step = "fuseStep colorA depthA"
      and G = "\<lambda>i j old. fusePixel (at_mat colorA i j) (at_mat depthA i j)"
      and R = "rows depthA" and C = "cols depthA" and ma = res, OF fuseStep_spec res]
  show "wf_mat (fusion colorA depthA res)" unfolding fusion_def by (rule L(1))
  show "rows (fusion colorA depthA res) = rows depthA" unfolding fusion_def by (rule L(2))
  show "cols (fusion colorA depthA res) = cols depthA" unfolding fusion_def by (rule L(3))
  show "\<And>i j. i < rows depthA \<Longrightarrow> j < cols depthA \<Longrightarrow>
          at_mat (fusion colorA depthA res) i j
            = fusePixel (at_mat colorA i j) (at_mat depthA i j)"
    unfolding fusion_def by (rule L(4))
qed

section \<open>Resizing\<close>

lemma rne_ge_floor: "\<lfloor>x\<rfloor> \<le> rne x"
  by (simp add: rne_def Let_def)

lemma fl_ge_1:
  assumes x: "1 \<le> x" and r: "emin \<le> 0" "0 \<le> emax" and p: "0 < p"
  shows "1 \<le> fl p emin emax x"
proof -
  define e where "e = expo emin emax x"
  define q :: real where "q = 2 powi (e - (int p - 1))"
  have qpos: "0 < q" by (simp add: q_def)
  have e0: "0 \<le> e"
  proof (rule ccontr)
    assume "\<not> 0 \<le> e"
    then have "expo emin emax x < 0" by (simp add: e_def)
    from expo_largest[OF this r(2)] x show False by simp
  qed
  have le: "2 powi e \<le> x"
  proof -
    from r have "emin \<le> emax" by simp
    from expo_cases[OF this, of x] show ?thesis
    proof
      assume "expo emin emax x = emin"
      with e0 r(1) have "e = 0" by (simp add: e_def)
      with x show ?thesis by simp
    next
      assume "2 powi expo emin emax x \<le> \<bar>x\<bar>"
      with x show ?thesis by (simp add: e_def)
    qed
  qed
  have split: "(2::real) powi e = 2 ^ (p - 1) * q"
  proof -
    have "e = int (p - 1) + (e - (int p - 1))" using p by simp
    then have "(2::real) powi e = 2 powi (int (p - 1)) * 2 powi (e - (int p - 1))"
      by (metis power_int_add zero_neq_numeral)
    then show ?thesis by (simp add: q_def)
  qed
  have "real_of_int (2 ^ (p - 1)) \<le> x / q"
    using le qpos unfolding split by (simp add: field_simps)
  then have "2 ^ (p - 1) \<le> \<lfloor>x / q\<rfloor>" by (simp only: le_floor_iff)
  with rne_ge_floor[of "x / q"] have "2 ^ (p - 1) \<le> rne (x / q)" by linarith
  then have "real_of_int (2 ^ (p - 1)) \<le> of_int (rne (x / q))" by (simp only: of_int_le_iff)
  then have "2 ^ (p - 1) * q \<le> of_int (rne (x / q)) * q"
    using qpos by (simp add: mult_right_mono)
  moreover have "(1::real) \<le> 2 powi e" using e0 by (simp add: one_le_power_int)
  ultimately show ?thesis
    unfolding fl_def Let_def e_def[symmetric] q_def[symmetric] split by linarith
qed

lemma rne_f64_pos: "0 < n \<Longrightarrow> 0 < rne (f64 (of_nat n))"
proof -
  assume "0 < n"
  then have "(1::real) \<le> of_nat n" by simp
  then have "1 \<le> f64 (of_nat n)" unfolding f64_def by (rule fl_ge_1) simp_all
  then have "1 \<le> \<lfloor>f64 (of_nat n)\<rfloor>" by simp
  with rne_ge_floor[of "f64 (of_nat n)"] show ?thesis by linarith
qed

lemma resizeNN_dims [simp]:
  "rows (resizeNN src dw dh fx fy) = dh" "cols (resizeNN src dw dh fx fy) = dw"
  "wf_mat (resizeNN src dw dh fx fy)"
  by (simp_all add: resizeNN_def wf_mat_def)


lemma nn_ofs_less: "0 < ssize \<Longrightarrow> nn_ofs s ssize x < ssize"
  by (simp add: nn_ofs_def)

lemma cv_resize_Inr:
  assumes "cv_resize src (w, h) 0 0 = Inr dst"
  shows "dst = resizeNN src w h (f64 (of_nat w / of_nat (cols src)))
                 (f64 (of_nat h / of_nat (rows src)))"
    and "0 < w" "0 < h" "0 < rows src" "0 < cols src"
  using assms by (auto simp: cv_resize_def mat_empty_def split: if_splits)


lemma resizeImg_dims:
  assumes "resizeImg img w h = Inr dst"
  shows "rows dst = h" "cols dst = w"
  using assms cv_resize_Inr(1)[of img w h dst]
  by (auto simp: resizeImg_def split: if_splits)

lemma resizeImg_wf:
  assumes "resizeImg img w h = Inr dst" "wf_mat img"
  shows "wf_mat dst"
  using assms cv_resize_Inr(1)[of img w h dst]
  by (auto simp: resizeImg_def split: if_splits)

lemma nn_ofs_unit: "x < ssize \<Longrightarrow> ssize < 2 ^ 53 \<Longrightarrow> nn_ofs 1 ssize x = x"
proof -
  assume a: "x < ssize" "ssize < 2 ^ 53"
  have "f64 (of_nat 1) = of_nat 1" by (rule f64_of_nat) simp
  then have one: "f64 1 = 1" by simp
  have "f64 (of_nat x) = of_nat x" using a by (intro f64_of_nat) simp
  then show ?thesis using a by (simp add: nn_ofs_def cvFloor_def one)
qed

lemma resizeNN_unit:
  assumes "wf_mat src" "rows src < 2 ^ 53" "cols src < 2 ^ 53"
  shows "resizeNN src (cols src) (rows src) 1 1 = src"
proof -
  have "map (\<lambda>k. at_mat src (nn_ofs 1 (rows src) (k div cols src))
                            (nn_ofs 1 (cols src) (k mod cols src)))
            [0..<rows src * cols src]
        = map (\<lambda>k. data src ! k) [0..<rows src * cols src]"
  proof (rule map_cong[OF refl])
    fix k assume "k \<in> set [0..<rows src * cols src]"
    then have k: "k < rows src * cols src" by simp
    then have c0: "0 < cols src" by (cases "cols src") simp_all
    have "k div cols src < rows src" using k c0 by (simp add: less_mult_imp_div_less)
    moreover have "k mod cols src < cols src" using c0 by simp
    ultimately show "at_mat src (nn_ofs 1 (rows src) (k div cols src))
                       (nn_ofs 1 (cols src) (k mod cols src)) = data src ! k"
      using assms(2,3) by (simp add: nn_ofs_unit at_mat_def)
  qed
  also have "\<dots> = data src"
    using assms(1) map_nth[of "data src"] by (simp add: wf_mat_def)
  finally show ?thesis by (simp add: resizeNN_def)
qed

lemma cv_resize_unit_ok:
  assumes "\<not> mat_empty src"
  shows "\<exists>dst. cv_resize src (0, 0) 1 1 = Inr dst"
proof -
  have "0 < rne (f64 (of_nat (rows src)))" "0 < rne (f64 (of_nat (cols src)))"
    using assms by (simp_all add: mat_empty_def rne_f64_pos)
  then show ?thesis using assms by (simp add: cv_resize_def Let_def)
qed

lemma cv_resize_unit:
  assumes "wf_mat src" "\<not> mat_empty src" "rows src < 2 ^ 53" "cols src < 2 ^ 53"
  shows "cv_resize src (0, 0) 1 1 = Inr src"
proof -
  have "f64 (of_nat (rows src)) = of_nat (rows src)" "f64 (of_nat (cols src)) = of_nat (cols src)"
    using assms(3,4) by (simp_all add: f64_of_nat)
  then have "rne (f64 (of_nat (rows src))) = int (rows src)"
    "rne (f64 (of_nat (cols src))) = int (cols src)"
    using rne_of_int[of "int (rows src)"] rne_of_int[of "int (cols src)"] by simp_all
  then show ?thesis
    using assms by (simp add: cv_resize_def Let_def mat_empty_def resizeNN_unit)
qed

lemma cv_resize_unit_empty: "mat_empty src \<Longrightarrow> cv_resize src (0, 0) 1 1 = Inl CvException"
  by (simp add: cv_resize_def)

section \<open>Depth synthesis and alignment\<close>

lemma hits_Nil [simp]: "hits prj cam [] i j = []"
  by (simp add: hits_def map_filter_simps)

lemma hits_Cons:
  "hits prj cam (p # ps) i j =
     (case prj p cam of
        None \<Rightarrow> hits prj cam ps i j
      | Some (iImg, jImg, d) \<Rightarrow>
          if iImg = int i \<and> jImg = int j then d # hits prj cam ps i j
          else hits prj cam ps i j)"
  by (simp add: hits_def map_filter_simps split: option.splits)

lemma projectCloud_spec:
  assumes "wf_mat m" "rows m = R" "cols m = C"
    and "\<forall>p\<in>set cl. \<forall>iImg jImg d. prj p cam = Some (iImg, jImg, d) \<longrightarrow>
               0 \<le> iImg \<and> iImg < int R \<and> 0 \<le> jImg \<and> jImg < int C"
  shows "\<exists>g. projectCloud prj cam cl m = Inr g \<and> wf_mat g \<and> rows g = R \<and> cols g = C \<and>
           (\<forall>i<R. \<forall>j<C. at_mat g i j =
              (case hits prj cam cl i j of [] \<Rightarrow> at_mat m i j | d # ds \<Rightarrow> last (d # ds)))"
  using assms
proof (induction cl arbitrary: m)
  case Nil
  then show ?case by simp
next
  case (Cons p ps)
  have rest: "\<forall>p\<in>set ps. \<forall>iImg jImg d. prj p cam = Some (iImg, jImg, d) \<longrightarrow>
               0 \<le> iImg \<and> iImg < int R \<and> 0 \<le> jImg \<and> jImg < int C"
    using Cons.prems(4) by simp
  show ?case
  proof (cases "prj p cam")
    case None
    from Cons.IH[OF Cons.prems(1-3) rest] None show ?thesis by (simp add: hits_Cons)
  next
    case (Some t)
    obtain iI jI d where t: "t = (iI, jI, d)" by (cases t)
    from Cons.prems(4) Some t
    have rng: "0 \<le> iI" "iI < int R" "0 \<le> jI" "jI < int C" by simp_all
    define m1 where "m1 = set_at m (nat iI) (nat jI) d"
    have m1: "wf_mat m1" "rows m1 = R" "cols m1 = C"
      using Cons.prems(1-3) by (simp_all add: m1_def)
    from Cons.IH[OF m1 rest] obtain g where g:
      "projectCloud prj cam ps m1 = Inr g" "wf_mat g" "rows g = R" "cols g = C"
      "\<forall>i<R. \<forall>j<C. at_mat g i j =
          (case hits prj cam ps i j of [] \<Rightarrow> at_mat m1 i j | d # ds \<Rightarrow> last (d # ds))"
      by auto
    have run: "projectCloud prj cam (p # ps) m = Inr g"
      using Some t rng g(1) Cons.prems(2,3) by (simp add: m1_def)
    have px: "at_mat g i j =
          (case hits prj cam (p # ps) i j of [] \<Rightarrow> at_mat m i j | d # ds \<Rightarrow> last (d # ds))"
      if ij: "i < R" "j < C" for i j
    proof (cases "iI = int i \<and> jI = int j")
      case True
      then have h: "hits prj cam (p # ps) i j = d # hits prj cam ps i j"
        using Some t by (simp add: hits_Cons)
      have "i = nat iI" "j = nat jI" using True by simp_all
      then have a1: "at_mat m1 i j = d"
        unfolding m1_def using Cons.prems(1-3) rng ij by (simp add: at_set_at)
      from g(5) ij have "at_mat g i j =
          (case hits prj cam ps i j of [] \<Rightarrow> at_mat m1 i j | d # ds \<Rightarrow> last (d # ds))"
        by simp
      then show ?thesis unfolding h a1 by (cases "hits prj cam ps i j") simp_all
    next
      case False
      then have h: "hits prj cam (p # ps) i j = hits prj cam ps i j"
        using Some t by (simp add: hits_Cons)
      have "\<not> (i = nat iI \<and> j = nat jI)" using False rng by auto
      then have a1: "at_mat m1 i j = at_mat m i j"
        unfolding m1_def using Cons.prems(1-3) rng ij by (auto simp: at_set_at)
      from g(5) ij show ?thesis unfolding h by (simp add: a1 split: list.splits)
    qed
    from run g(2-4) px show ?thesis by blast
  qed
qed

lemma projectCloud_skip:
  "projectCloud prj cam (filter (\<lambda>p. prj p cam \<noteq> None) cl) m = projectCloud prj cam cl m"
  by (induction cl arbitrary: m) (auto split: option.splits)

lemma synthDepth_spec:
  assumes "\<forall>p\<in>set cl. inFrame prj dcam p"
  shows "\<exists>g. synthDepth prj dcam cl = Inr g \<and> wf_mat g \<and>
           rows g = cam_h dcam \<and> cols g = cam_w dcam \<and>
           (\<forall>i<cam_h dcam. \<forall>j<cam_w dcam. at_mat g i j = lastHit prj dcam cl i j)"
proof -
  have "\<forall>p\<in>set cl. \<forall>iImg jImg d. prj p dcam = Some (iImg, jImg, d) \<longrightarrow>
               0 \<le> iImg \<and> iImg < int (cam_h dcam) \<and> 0 \<le> jImg \<and> jImg < int (cam_w dcam)"
    using assms by (auto simp: inFrame_def)
  from projectCloud_spec[where m = "zeros (cam_h dcam) (cam_w dcam) 0" and R = "cam_h dcam"
      and C = "cam_w dcam" and prj = prj and cam = dcam and cl = cl, OF zeros_dims(3) zeros_dims(1) zeros_dims(2) this]
  show ?thesis
    unfolding synthDepth_def lastHit_def
    by (auto simp: at_zeros split: list.splits)
qed

lemma aligned_dims:
  assumes "aligned prj st fr = Inr (colorA, depthA)"
  shows "rows colorA = min (cam_h (colorCamera st)) (cam_h (depthCamera st))"
    and "cols colorA = min (cam_w (colorCamera st)) (cam_w (depthCamera st))"
    and "rows depthA = min (cam_h (colorCamera st)) (cam_h (depthCamera st))"
    and "cols depthA = min (cam_w (colorCamera st)) (cam_w (depthCamera st))"
  using assms unfolding aligned_def Let_def
  by (auto split: sum.splits if_splits dest: resizeImg_dims)

lemma process_not_saving:
  assumes "aligned prj st fr = Inr (colorA, depthA)" "\<not> saveToDisk st"
  shows "process prj st fr =
           Inr (st\<lparr>numFrames := numFrames st + 1\<rparr>,
                \<lparr>shown = fusion colorA depthA (zeros (rows depthA) (cols depthA) vec3b_zero),
                 written = None\<rparr>)"
  using assms aligned_dims(3,4)[OF assms(1)] by (simp add: process_def Let_def)

lemma process_saving:
  assumes "aligned prj st fr = Inr (colorA, depthA)" "saveToDisk st"
    and "cv_resize (prettyDepth depthA) (0, 0) 1 1 = Inr img"
  shows "process prj st fr =
           Inr (st\<lparr>numFrames := numFrames st + 1\<rparr>,
                \<lparr>shown = fusion colorA depthA (zeros (rows depthA) (cols depthA) vec3b_zero),
                 written = Some (fileName (numFrames st), img)\<rparr>)"
  using assms aligned_dims(3,4)[OF assms(1)] by (simp add: process_def Let_def)

lemma process_saving_empty:
  assumes "aligned prj st fr = Inr (colorA, depthA)" "saveToDisk st"
    and "cv_resize (prettyDepth depthA) (0, 0) 1 1 = Inl e"
  shows "process prj st fr = Inl e"
  using assms by (simp add: process_def Let_def)

section \<open>The false-colour pixel\<close>

lemma f32_err_2: "\<bar>x\<bar> < 2 \<Longrightarrow> \<bar>f32 x - x\<bar> \<le> 1 / 16777216"
  using fl_err[where x = x and K = 1 and emin = "-126" and p = 24 and emax = 127]
  by (simp add: f32_def power_int_minus_divide)

lemma f32_err_256: "\<bar>x\<bar> < 256 \<Longrightarrow> \<bar>f32 x - x\<bar> \<le> 1 / 131072"
  using fl_err[where x = x and K = 8 and emin = "-126" and p = 24 and emax = 127]
  by (simp add: f32_def power_int_minus_divide)

lemma f32_zero: "f32 0 = 0"
  using f32_of_int[of 0] by simp

lemma rne_zero: "rne 0 = 0"
  using rne_of_int[of 0] by simp

lemma scaled_channel:
  assumes a: "0 \<le> a" "a \<le> 1700"
  defines "v \<equiv> rne (f32 (255 * f32 (f32 (of_int a) / f32 (of_int 1700))))"
  shows "0 \<le> v" "v \<le> 255" "\<bar>real_of_int v - 255 * of_int a / 1700\<bar> \<le> 1 / 2"
proof -
  define x :: real where "x = of_int a / 1700"
  define alpha where "alpha = f32 x"
  define p where "p = f32 (255 * alpha)"
  have fa: "f32 (of_int a) = of_int a" using a by (intro f32_of_int) simp
  have fr: "f32 (of_int 1700) = of_int 1700" by (rule f32_of_int) simp
  have v: "v = rne p" unfolding v_def p_def alpha_def x_def fa fr by simp
  have x01: "0 \<le> x" "x \<le> 1" using a by (simp_all add: x_def)
  then have "\<bar>x\<bar> < 2" by simp
  then have e1: "\<bar>alpha - x\<bar> \<le> 1 / 16777216" unfolding alpha_def by (rule f32_err_2)
  with x01 have "\<bar>255 * alpha\<bar> < 256" by (simp add: abs_if split: if_splits)
  then have e2: "\<bar>p - 255 * alpha\<bar> \<le> 1 / 131072" unfolding p_def by (rule f32_err_256)
  have e3: "\<bar>real_of_int v - p\<bar> \<le> 1 / 2" unfolding v by (rule rne_err)
  from e1 e2 e3 have e4: "\<bar>real_of_int v - 255 * x\<bar> < 1 / 2 + 1 / 20"
    by (simp add: abs_if split: if_splits)
  have "real_of_int (20 * v - 3 * a) = 20 * (real_of_int v - 255 * x)"
    by (simp add: x_def)
  with e4 have "\<bar>real_of_int (20 * v - 3 * a)\<bar> < 11" by (simp add: abs_if split: if_splits)
  then have "real_of_int \<bar>20 * v - 3 * a\<bar> < real_of_int 11" by simp
  then have "\<bar>20 * v - 3 * a\<bar> < 11" by (simp only: of_int_less_iff)
  then have i: "\<bar>20 * v - 3 * a\<bar> \<le> 10" by simp
  then show "0 \<le> v" "v \<le> 255" using a by simp_all
  from i have "real_of_int \<bar>20 * v - 3 * a\<bar> \<le> real_of_int 10" by (simp only: of_int_le_iff)
  then have "\<bar>20 * real_of_int v - 3 * real_of_int a\<bar> \<le> 10" by simp
  then show "\<bar>real_of_int v - 255 * of_int a / 1700\<bar> \<le> 1 / 2"
    by (simp add: abs_if field_simps split: if_splits)
qed

lemma scaled_zero: "rne (f32 (0 * t)) = 0"
  by (simp add: f32_zero rne_zero)

lemma saturate_uchar_id: "0 \<le> v \<Longrightarrow> v \<le> 255 \<Longrightarrow> uint (saturate_uchar v) = v"
  by (simp add: saturate_uchar_def uint_word_of_int)

lemma uint_dRange: "uint dRange = 1700"
  by (simp add: dRange_def dMax_def dMin_def)

lemma clamp_word:
  "unat (min (max d0 dMin) dMax) = min (max (unat d0) 800) 2500"
proof -
  have "unat (min (max d0 dMin) dMax) = min (max (unat d0) (unat dMin)) (unat dMax)"
    by (simp add: min_def max_def word_le_nat_alt)
  then show ?thesis by (simp add: dMin_def dMax_def)
qed

lemma finalColor_channels:
  defines "n \<equiv> \<lambda>d0. int (min (max (unat d0) 800) 2500)"
  shows "ch1 (finalColor d0) = 0"
    and "\<bar>real_of_int (uint (ch0 (finalColor d0))) - 255 * of_int (n d0 - 800) / 1700\<bar> \<le> 1 / 2"
    and "\<bar>real_of_int (uint (ch2 (finalColor d0))) - 255 * of_int (2500 - n d0) / 1700\<bar> \<le> 1 / 2"
proof -
  define d where "d = min (max d0 dMin) dMax"
  have ud: "uint d = n d0"
    unfolding n_def d_def using clamp_word[of d0] by (simp add: uint_nat)
  have nb: "800 \<le> n d0" "n d0 \<le> 2500" by (simp_all add: n_def)
  define vc where "vc = rne (f32 (255 * f32 (f32 (of_int (2500 - n d0)) / f32 (of_int 1700))))"
  define vf where "vf = rne (f32 (255 * f32 (f32 (of_int (n d0 - 800)) / f32 (of_int 1700))))"
  have c: "0 \<le> vc" "vc \<le> 255" "\<bar>real_of_int vc - 255 * of_int (2500 - n d0) / 1700\<bar> \<le> 1 / 2"
    unfolding vc_def using nb by (intro scaled_channel; simp)+
  have f: "0 \<le> vf" "vf \<le> 255" "\<bar>real_of_int vf - 255 * of_int (n d0 - 800) / 1700\<bar> \<le> 1 / 2"
    unfolding vf_def using nb by (intro scaled_channel; simp)+
  have fc: "finalColor d0 =
      \<lparr>ch0 = saturate_uchar (uint (saturate_uchar vf)),
       ch1 = 0,
       ch2 = saturate_uchar (uint (saturate_uchar vc))\<rparr>"
    unfolding finalColor_def Let_def d_def[symmetric] ud uint_dRange
    by (simp add: scaleVec_def addVec_def closeColor_def farColor_def dMax_def dMin_def
        f32_zero rne_zero vc_def vf_def saturate_uchar_def)
  show "ch1 (finalColor d0) = 0" by (simp add: fc)
  show "\<bar>real_of_int (uint (ch0 (finalColor d0))) - 255 * of_int (n d0 - 800) / 1700\<bar> \<le> 1 / 2"
    using f by (simp add: fc saturate_uchar_id)
  show "\<bar>real_of_int (uint (ch2 (finalColor d0))) - 255 * of_int (2500 - n d0) / 1700\<bar> \<le> 1 / 2"
    using c by (simp add: fc saturate_uchar_id)
qed

lemma prettyStep_spec:
  assumes "wf_mat m" "rows m = R" "cols m = C" "i < R" "j < C"
  shows "wf_mat (prettyStep depthA i j m) \<and> rows (prettyStep depthA i j m) = R \<and>
         cols (prettyStep depthA i j m) = C \<and>
         (\<forall>i'<R. \<forall>j'<C. at_mat (prettyStep depthA i j m) i' j' =
            (if i' = i \<and> j' = j
             then (if at_mat depthA i j = 0 then at_mat m i j else finalColor (at_mat depthA i j))
             else at_mat m i' j'))"
  using assms by (simp add: prettyStep_def Let_def at_set_at)

lemma prettyDepth_spec:
  shows "wf_mat (prettyDepth depthA)"
    and "rows (prettyDepth depthA) = rows depthA"
    and "cols (prettyDepth depthA) = cols depthA"
    and "\<And>i j. i < rows depthA \<Longrightarrow> j < cols depthA \<Longrightarrow>
          at_mat (prettyDepth depthA) i j
            = (if at_mat depthA i j = 0 then vec3b_zero else finalColor (at_mat depthA i j))"
proof -
  let ?G = "\<lambda>i j old. if at_mat depthA i j = 0 then old else finalColor (at_mat depthA i j)"
  let ?z = "zeros (rows depthA) (cols depthA) vec3b_zero"
  show "wf_mat (prettyDepth depthA)" unfolding prettyDepth_def
    by (rule loop2(1)[where G = ?G and R = "rows depthA" and C = "cols depthA"],
        (rule prettyStep_spec; assumption)) simp_all
  show "rows (prettyDepth depthA) = rows depthA" unfolding prettyDepth_def
    by (rule loop2(2)[where G = ?G and R = "rows depthA" and C = "cols depthA"],
        (rule prettyStep_spec; assumption)) simp_all
  show "cols (prettyDepth depthA) = cols depthA" unfolding prettyDepth_def
    by (rule loop2(3)[where G = ?G and R = "rows depthA" and C = "cols depthA"],
        (rule prettyStep_spec; assumption)) simp_all
  show "at_mat (prettyDepth depthA) i j
            = (if at_mat depthA i j = 0 then vec3b_zero else finalColor (at_mat depthA i j))"
    if ij: "i < rows depthA" "j < cols depthA" for i j
  proof -
    have "at_mat (prettyDepth depthA) i j = ?G i j (at_mat ?z i j)" unfolding prettyDepth_def
      by (rule loop2(4)[where G = ?G and R = "rows depthA" and C = "cols depthA"],
          (rule prettyStep_spec; assumption)) (simp_all add: ij)
    then show ?thesis using ij by (simp add: at_zeros)
  qed
qed

lemma finalColor_interpolate:
  defines "t \<equiv> \<lambda>d. (clampDepth d - 800) / 1700"
  shows "\<bar>real (unat (ch0 (finalColor d))) - interpolate closeColor farColor (t d) ch0\<bar> \<le> 1 / 2"
    and "real (unat (ch1 (finalColor d))) = interpolate closeColor farColor (t d) ch1"
    and "\<bar>real (unat (ch2 (finalColor d))) - interpolate closeColor farColor (t d) ch2\<bar> \<le> 1 / 2"
proof -
  define n where "n = min (max (unat d) 800) 2500"
  have nb: "800 \<le> n" "n \<le> 2500" by (simp_all add: n_def)
  have cd: "clampDepth d = of_nat n" by (simp add: clampDepth_def n_def)
  have k: "unat (ch0 closeColor) = 0" "unat (ch0 farColor) = 255"
    "unat (ch2 closeColor) = 255" "unat (ch2 farColor) = 0"
    by (simp_all add: closeColor_def farColor_def)
  have i0: "interpolate closeColor farColor (t d) ch0 = 255 * of_int (int n - 800) / 1700"
    unfolding interpolate_def k by (simp add: t_def cd)
  have i2: "interpolate closeColor farColor (t d) ch2 = 255 * of_int (2500 - int n) / 1700"
    unfolding interpolate_def k using nb by (simp add: t_def cd field_simps)
  have u: "real (unat w) = real_of_int (uint w)" for w :: "8 word"
    by simp
  show "\<bar>real (unat (ch0 (finalColor d))) - interpolate closeColor farColor (t d) ch0\<bar> \<le> 1 / 2"
    unfolding i0 u n_def by (rule finalColor_channels(2))
  show "\<bar>real (unat (ch2 (finalColor d))) - interpolate closeColor farColor (t d) ch2\<bar> \<le> 1 / 2"
    unfolding i2 u n_def by (rule finalColor_channels(3))
  show "real (unat (ch1 (finalColor d))) = interpolate closeColor farColor (t d) ch1"
    by (simp add: finalColor_channels(1) interpolate_def closeColor_def farColor_def)
qed

subsection \<open>File names\<close>

lemma digitsValue_append:
  "digitsValue (a @ b) = foldl (\<lambda>acc c. 10 * acc + (of_char c - 48)) (digitsValue a) b"
  by (simp add: digitsValue_def)

lemma digitsValue_snoc: "digitsValue (a @ [c]) = 10 * digitsValue a + (of_char c - 48)"
  by (simp add: digitsValue_def)

lemma of_char_digit: "k < 10 \<Longrightarrow> (of_char (char_of (48 + k)) :: nat) = 48 + k"
  by simp

lemma digitsValue_decimal: "digitsValue (decimal n) = n"
proof (induction n rule: decimal.induct)
  case (1 n)
  show ?case
  proof (cases "n < 10")
    case True
    then show ?thesis by (simp add: decimal.simps[of n] digitsValue_def)
  next
    case False
    with 1 have "digitsValue (decimal (n div 10)) = n div 10" by simp
    with False show ?thesis
      by (simp add: decimal.simps[of n] digitsValue_snoc)
  qed
qed

lemma isDigit_decimal: "list_all isDigit (decimal n)"
proof (induction n rule: decimal.induct)
  case (1 n)
  show ?case
  proof (cases "n < 10")
    case True
    then show ?thesis by (simp add: decimal.simps[of n] isDigit_def)
  next
    case False
    with 1 have "list_all isDigit (decimal (n div 10))" by simp
    moreover have "n mod 10 \<le> 9" by (rule Nat.le_diff_conv2[THEN iffD2, of 1 10, simplified]) simp
    then have "isDigit (char_of (48 + n mod 10))" by (simp add: isDigit_def)
    ultimately show ?thesis using False
      by (simp add: decimal.simps[of n])
  qed
qed

lemma length_decimal_le: "0 < k \<Longrightarrow> n < 10 ^ k \<Longrightarrow> length (decimal n) \<le> k"
proof (induction n arbitrary: k rule: decimal.induct)
  case (1 n)
  show ?case
  proof (cases "n < 10")
    case True
    then show ?thesis using "1.prems" by (simp add: decimal.simps[of n])
  next
    case False
    then obtain k' where k: "k = Suc k'" using "1.prems" by (cases k) simp_all
    have "0 < k'" using False "1.prems" k by (cases k') simp_all
    moreover have "n div 10 < 10 ^ k'" using "1.prems"(2) k by (simp add: less_mult_imp_div_less mult.commute)
    ultimately have "length (decimal (n div 10)) \<le> k'" using "1.IH"[OF False] by simp
    then show ?thesis using False k by (simp add: decimal.simps[of n])
  qed
qed

lemma digitsValue_zeros: "digitsValue (replicate k (CHR ''0'') @ s) = digitsValue s"
proof (induction k)
  case 0
  show ?case by simp
next
  case (Suc k)
  have "digitsValue (CHR ''0'' # replicate k (CHR ''0'') @ s)
        = foldl (\<lambda>acc c. 10 * acc + (of_char c - 48)) 0 (replicate k (CHR ''0'') @ s)"
    by (simp add: digitsValue_def)
  then show ?case using Suc by (simp add: digitsValue_def)
qed

lemma index_digits:
  shows "digitsValue (setw_fill 8 (CHR ''0'') (decimal n)) = n"
    and "list_all isDigit (setw_fill 8 (CHR ''0'') (decimal n))"
    and "length (setw_fill 8 (CHR ''0'') (decimal n)) = max 8 (length (decimal n))"
    and "n < 10 ^ 8 \<Longrightarrow> length (setw_fill 8 (CHR ''0'') (decimal n)) = 8"
proof -
  show "digitsValue (setw_fill 8 (CHR ''0'') (decimal n)) = n"
    by (simp add: setw_fill_def digitsValue_zeros digitsValue_decimal)
  show "list_all isDigit (setw_fill 8 (CHR ''0'') (decimal n))"
    using isDigit_decimal[of n] by (auto simp: setw_fill_def list_all_iff isDigit_def)
  show "length (setw_fill 8 (CHR ''0'') (decimal n)) = max 8 (length (decimal n))"
    by (simp add: setw_fill_def)
  show "length (setw_fill 8 (CHR ''0'') (decimal n)) = 8" if "n < 10 ^ 8"
    using length_decimal_le[of 8 n] that by (simp add: setw_fill_def)
qed

lemma fileName_0: "fileName 0 = path @ ''00000000_frame.bmp''"
  by code_simp

section \<open>Frame counter\<close>

lemma process_step:
  assumes "process prj st fr = Inr (st', out)"
  shows "st' = st\<lparr>numFrames := numFrames st + 1\<rparr>"
    and "saveToDisk st \<Longrightarrow> \<exists>img. written out = Some (fileName (numFrames st), img)"
    and "\<not> saveToDisk st \<Longrightarrow> written out = None"
  using assms unfolding process_def Let_def
  by (auto split: sum.splits prod.splits if_splits)

lemma processAll_spec:
  assumes "processAll prj st frs = Inr (st', outs)"
  shows "numFrames st' = numFrames st + length frs \<and> saveToDisk st' = saveToDisk st \<and>
         length outs = length frs \<and>
         (\<forall>k<length frs.
            (saveToDisk st \<longrightarrow> (\<exists>img. written (outs ! k) = Some (fileName (numFrames st + k), img)))
            \<and> (\<not> saveToDisk st \<longrightarrow> written (outs ! k) = None))"
  using assms
proof (induction frs arbitrary: st outs)
  case Nil
  then show ?case by simp
next
  case (Cons fr frs)
  from Cons.prems obtain st1 out outs1 where
    p: "process prj st fr = Inr (st1, out)" and
    r: "processAll prj st1 frs = Inr (st', outs1)" and
    o: "outs = out # outs1"
    by (auto split: sum.splits prod.splits)
  from process_step[OF p] have s1: "st1 = st\<lparr>numFrames := numFrames st + 1\<rparr>"
    and w1: "saveToDisk st \<Longrightarrow> \<exists>img. written out = Some (fileName (numFrames st), img)"
    and w2: "\<not> saveToDisk st \<Longrightarrow> written out = None"
    by blast+
  from Cons.IH[OF r] have ih:
    "numFrames st' = numFrames st1 + length frs" "saveToDisk st' = saveToDisk st1"
    "length outs1 = length frs"
    "\<forall>k<length frs.
        (saveToDisk st1 \<longrightarrow> (\<exists>img. written (outs1 ! k) = Some (fileName (numFrames st1 + k), img)))
        \<and> (\<not> saveToDisk st1 \<longrightarrow> written (outs1 ! k) = None)"
    by blast+
  have n1: "numFrames st1 = numFrames st + 1" "saveToDisk st1 = saveToDisk st"
    by (simp_all add: s1)
  have "(saveToDisk st \<longrightarrow> (\<exists>img. written (outs ! k) = Some (fileName (numFrames st + k), img)))
            \<and> (\<not> saveToDisk st \<longrightarrow> written (outs ! k) = None)"
    if "k < length (fr # frs)" for k
  proof (cases k)
    case 0
    then show ?thesis using w1 w2 o by auto
  next
    case (Suc k')
    then have "k' < length frs" using that by simp
    with ih(4) show ?thesis unfolding o Suc n1 by simp
  qed
  then show ?case using ih(1-3) n1 o by simp
qed

subsection \<open>The grabber\<close>

lemma say_queues [simp]: "queues (say e g) = queues g" "tlog (say e g) = tlog g @ [e]"
  "captured (say e g) = captured g"
  by (simp_all add: say_def)

lemma grabBody_transient:
  assumes "transient a"
  shows "queues (grabBody a g) = queues g"
    and "\<exists>es e. tlog (grabBody a g) = tlog g @ es @ [e] \<and> is_error e"
proof -
  show "queues (grabBody a g) = queues g"
    using assms unfolding grabBody_def transient_def Let_def
    by (auto split: option.splits)
  show "\<exists>es e. tlog (grabBody a g) = tlog g @ es @ [e] \<and> is_error e"
  proof (cases "query_sample a")
    case None
    then have "tlog (grabBody a g) = tlog g @ [] @ [SampleIsNull]" by (simp add: grabBody_def)
    then show ?thesis using is_error.simps(1) by blast
  next
    case (Some smp)
    show ?thesis
    proof (cases "sample_color smp")
      case None
      with Some have "tlog (grabBody a g) = tlog g @ [] @ [ColorIsNull]"
        by (simp add: grabBody_def)
      then show ?thesis using is_error.simps(2) by blast
    next
      case c: (Some c)
      show ?thesis
      proof (cases "sample_depth smp")
        case None
        with Some c have "tlog (grabBody a g) = tlog g @ [] @ [DepthIsNull]"
          by (simp add: grabBody_def)
        then show ?thesis using is_error.simps(3) by blast
      next
        case d: (Some d)
        let ?n = "captured g + 1"
        show ?thesis
        proof (cases "access_status c < PXC_STATUS_NO_ERROR")
          case True
          with Some c d have "tlog (grabBody a g) =
              tlog g @ [CapturedColor ?n, CapturedDepth ?n] @ [ColorAccessFailed ?n (access_status c)]"
            by (simp add: grabBody_def Let_def)
          then show ?thesis using is_error.simps(4) by blast
        next
          case False
          with assms Some c d have "access_status d < PXC_STATUS_NO_ERROR"
            by (simp add: transient_def)
          with False Some c d have "tlog (grabBody a g) =
              tlog g @ [CapturedColor ?n, CapturedDepth ?n] @ [DepthAccessFailed ?n (access_status d)]"
            by (simp add: grabBody_def Let_def)
          then show ?thesis using is_error.simps(5) by blast
        qed
      qed
    qed
  qed
qed

lemma grabBody_good:
  assumes "\<not> transient a"
  shows "\<exists>fr. frameOf a = Some fr \<and> queues (grabBody a g) = map (\<lambda>q. q @ [fr]) (queues g)"
  using assms unfolding grabBody_def transient_def Let_def frameOf_def put_all_def
  by (auto split: option.splits)

lemma grabber_run_queues:
  "queues (fst (grabber_run evs g)) = map (\<lambda>q. q @ delivered evs) (queues g)"
proof (induction evs arbitrary: g)
  case Nil
  show ?case by (simp add: delivered_def map_filter_simps)
next
  case (Cons a evs)
  show ?case
  proof (cases "acquiredOk a")
    case False
    then show ?thesis by (simp add: acquiredOk_def delivered_def map_filter_simps)
  next
    case True
    then have "queues (fst (grabber_run (a # evs) g))
                 = map (\<lambda>q. q @ delivered evs) (queues (grabBody a g))"
      using Cons.IH[of "grabBody a g"] by (simp add: acquiredOk_def)
    also have "\<dots> = map (\<lambda>q. q @ delivered (a # evs)) (queues g)"
    proof (cases "transient a")
      case t: True
      then show ?thesis using True
        by (simp add: grabBody_transient(1) delivered_def)
    next
      case f: False
      from grabBody_good[OF f, of g] obtain fr where
        "frameOf a = Some fr" "queues (grabBody a g) = map (\<lambda>q. q @ [fr]) (queues g)" by blast
      then show ?thesis using True f
        by (simp add: delivered_def map_filter_simps)
    qed
    finally show ?thesis .
  qed
qed

lemma grabber_run_state:
  "snd (grabber_run evs g) =
     (case dropWhile acquiredOk evs of [] \<Rightarrow> AwaitingSample
      | a # rest \<Rightarrow> Finished (acquire_status a))"
  by (induction evs arbitrary: g) (simp_all add: acquiredOk_def)

section \<open>Fusion\<close>

lemma process_ok:
  assumes al: "aligned prj st fr = Inr (colorA, depthA)"
    and ne: "\<not> mat_empty depthA"
  shows "\<exists>st' out. process prj st fr = Inr (st', out) \<and>
           shown out = fusion colorA depthA (zeros (rows depthA) (cols depthA) vec3b_zero)"
proof (cases "saveToDisk st")
  case False
  from process_not_saving[OF al False] show ?thesis by simp
next
  case True
  have "\<not> mat_empty (prettyDepth depthA)"
    using ne by (simp add: mat_empty_def prettyDepth_spec(2,3))
  from cv_resize_unit_ok[OF this] obtain img where
    "cv_resize (prettyDepth depthA) (0, 0) 1 1 = Inr img" by blast
  from process_saving[OF al True this] show ?thesis by simp
qed

lemma shown_pixel:
  assumes al: "aligned prj st fr = Inr (colorA, depthA)"
    and ij: "i < rows depthA" "j < cols depthA"
  shows "\<exists>st' out. process prj st fr = Inr (st', out) \<and>
           at_mat (shown out) i j = fusePixel (at_mat colorA i j) (at_mat depthA i j)"
proof -
  have "\<not> mat_empty depthA" using ij by (simp add: mat_empty_def)
  from process_ok[OF al this] obtain st' out where
    p: "process prj st fr = Inr (st', out)"
      "shown out = fusion colorA depthA (zeros (rows depthA) (cols depthA) vec3b_zero)"
    by blast
  have "at_mat (shown out) i j = fusePixel (at_mat colorA i j) (at_mat depthA i j)"
    unfolding p(2) using ij by (intro fusion_spec(4)) simp_all
  with p(1) show ?thesis by blast
qed

lemma fusePixel_in_range:
  assumes "300 < unat d" "unat d < 6000"
  shows "ch0 (fusePixel c d) = ch0 c" "ch2 (fusePixel c d) = ch2 c"
    and "uint (ch1 (fusePixel c d)) = min (uint (ch1 c) + depthColor d) 255"
proof -
  have nr: "\<not> outOfRange d" using assms by (simp add: outOfRange_iff)
  then show "ch0 (fusePixel c d) = ch0 c" "ch2 (fusePixel c d) = ch2 c"
    by (simp_all add: fusePixel_def)
  have "0 \<le> uint (ch1 c)" by simp
  with depthColor_eq(2)[OF assms] have lo: "0 \<le> min (uint (ch1 c) + depthColor d) 255"
    by simp
  have "uint (word_of_int (min (uint (ch1 c) + depthColor d) 255) :: 8 word)
          = min (uint (ch1 c) + depthColor d) 255"
    using lo by (simp add: uint_word_of_int)
  then show "uint (ch1 (fusePixel c d)) = min (uint (ch1 c) + depthColor d) 255"
    using nr by (simp add: fusePixel_def)
qed

lemma fusePixel_out_of_range:
  "unat d \<le> 300 \<or> 6000 \<le> unat d \<Longrightarrow> fusePixel c d = c"
  by (simp add: fusePixel_def outOfRange_iff)

lemma fusePixel_green_ge: "ch1 c \<le> ch1 (fusePixel c d)"
proof (cases "outOfRange d")
  case True
  then show ?thesis by (simp add: fusePixel_def)
next
  case False
  then have r: "300 < unat d" "unat d < 6000" by (simp_all add: outOfRange_iff)
  have "uint (ch1 c) < 256" using uint_lt2p[of "ch1 c"] by simp
  with fusePixel_in_range(3)[OF r, of c] depthColor_eq(2)[OF r]
  have "uint (ch1 c) \<le> uint (ch1 (fusePixel c d))" by simp
  then show ?thesis by (simp add: word_le_def)
qed

lemma fusePixel_antimono:
  assumes "300 < unat d1" "unat d1 \<le> unat d2" "unat d2 < 6000"
  shows "ch1 (fusePixel c d2) \<le> ch1 (fusePixel c d1)"
proof -
  have r1: "300 < unat d1" "unat d1 < 6000" and r2: "300 < unat d2" "unat d2 < 6000"
    using assms by simp_all
  have "d1 \<le> d2" using assms(2) by (simp add: word_le_nat_alt)
  then have "uint d1 \<le> uint d2" by (simp add: word_le_def)
  then have "(int (unat d1) + 149) div 150 \<le> (int (unat d2) + 149) div 150"
    by (intro zdiv_mono1) simp_all
  then have "depthColor d2 \<le> depthColor d1"
    unfolding depthColor_eq(4)[OF r1] depthColor_eq(4)[OF r2] by simp
  then have "uint (ch1 (fusePixel c d2)) \<le> uint (ch1 (fusePixel c d1))"
    unfolding fusePixel_in_range(3)[OF r1] fusePixel_in_range(3)[OF r2] by simp
  then show ?thesis by (simp add: word_le_def)
qed

text \<open>
  Claim C1, as the code computes it.  In the fusion step of \<open>process\<close>, for every pixel
  whose aligned depth \<open>d\<close> satisfies \<open>300 < d < 6000\<close>, the green channel of the
  displayed pixel is \<open>min(green + floor(40 - d*40/6000), 255)\<close>: the boost is the integer
  part of the exact value \<open>40 - d*40/6000\<close> (the source converts the float to \<open>int\<close>),
  not its rounding.  The roundings of the float operations never change this integer part.
\<close>

theorem fused_green_truncated:
  assumes "aligned prj st fr = Inr (colorA, depthA)"
    and "i < rows depthA" "j < cols depthA"
    and "300 < unat (at_mat depthA i j)" "unat (at_mat depthA i j) < 6000"
  shows "\<exists>st' out. process prj st fr = Inr (st', out) \<and>
           uint (ch1 (at_mat (shown out) i j))
             = min (uint (ch1 (at_mat colorA i j))
                    + \<lfloor>40 - real (unat (at_mat depthA i j)) * 40 / 6000\<rfloor>) 255"
proof -
  from shown_pixel[OF assms(1-3)] obtain st' out where
    p: "process prj st fr = Inr (st', out)"
      "at_mat (shown out) i j = fusePixel (at_mat colorA i j) (at_mat depthA i j)"
    by blast
  have "uint (ch1 (at_mat (shown out) i j))
             = min (uint (ch1 (at_mat colorA i j))
                    + \<lfloor>40 - real (unat (at_mat depthA i j)) * 40 / 6000\<rfloor>) 255"
    unfolding p(2) fusePixel_in_range(3)[OF assms(4,5)] depthColor_eq(1)[OF assms(4,5)] ..
  with p(1) show ?thesis by blast
qed

lemma aligned_exFrame_gen:
  assumes "colorCamera st = exCam 1 1" "depthCamera st = exCam 1 1"
  shows "aligned prj st (exFrame d) = Inr (grayImage, depthImage d)"
  using assms
  by (simp add: aligned_def exFrame_def exCam_def resizeImg_def mat_empty_def
      grayImage_def depthImage_def)

lemma aligned_exFrame:
  "aligned prj (exState r) (exFrame d) = Inr (grayImage, depthImage d)"
  by (rule aligned_exFrame_gen) (simp_all add: exState_def)

lemma at_examples [simp]: "at_mat grayImage 0 0 = gray" "at_mat (depthImage d) 0 0 = d"
  "rows (depthImage d) = 1" "cols (depthImage d) = 1"
  by (simp_all add: at_mat_def grayImage_def depthImage_def)

theorem fused_green_truncated_witness:
  "aligned tableProjection (exState False) (exFrame 1000) = Inr (grayImage, depthImage 1000)
   \<and> 0 < rows (depthImage 1000) \<and> 0 < cols (depthImage 1000)
   \<and> 300 < unat (at_mat (depthImage 1000) 0 0) \<and> unat (at_mat (depthImage 1000) 0 0) < 6000
   \<and> (\<exists>st' out. process tableProjection (exState False) (exFrame 1000) = Inr (st', out) \<and>
         uint (ch1 (at_mat (shown out) 0 0)) = 161)"
  using fused_green_truncated[of tableProjection "exState False" "exFrame 1000"
      grayImage "depthImage 1000" 0 0]
  by (simp add: aligned_exFrame gray_def)

lemma fusion_one_pixel:
  "fusion grayImage (depthImage d) (zeros 1 1 vec3b_zero)
     = \<lparr>rows = 1, cols = 1, data = [fusePixel gray d]\<rparr>"
  by (simp add: fusion_def fuseStep_def fusePixel_def zeros_def set_at_def at_mat_def
      grayImage_def depthImage_def Let_def)

lemma depthColor_301: "depthColor 301 = 37"
  using depthColor_eq(4)[of 301] by simp

lemma depthColor_1000: "depthColor 1000 = 33"
  using depthColor_eq(4)[of 1000] by simp

lemma depthColor_2000: "depthColor 2000 = 26"
  using depthColor_eq(4)[of 2000] by simp

text \<open>
  Claim C1 as stated fails at depth 301: the exact boost is \<open>37.99...\<close>, the code adds 37
  to the green channel 128 and shows 165, where rounding would add 38 and give 166.
\<close>

theorem fused_green_rounded_counterexample:
  "process tableProjection (exState False) (exFrame 301)
     = Inr ((exState False)\<lparr>numFrames := 1\<rparr>,
            \<lparr>shown = \<lparr>rows = 1, cols = 1, data = [\<lparr>ch0 = 128, ch1 = 165, ch2 = 128\<rparr>]\<rparr>,
             written = None\<rparr>)
   \<and> min (uint (128 :: 8 word) + round (40 - 301 * 40 / 6000 :: real)) 255 = 166"
proof -
  have "fusePixel gray 301 = \<lparr>ch0 = 128, ch1 = 165, ch2 = 128\<rparr>"
    by (simp add: fusePixel_def outOfRange_iff depthColor_301 gray_def)
  moreover have "\<not> saveToDisk (exState False)" "numFrames (exState False) = 0"
    by (simp_all add: exState_def)
  ultimately show ?thesis
    using process_not_saving[OF aligned_exFrame, of False tableProjection 301]
    by (simp add: fusion_one_pixel[unfolded One_nat_def] round_def)
qed

text \<open>
  Claim C2.  In the fusion step, for every pixel whose aligned depth \<open>d\<close> satisfies
  \<open>d \<le> 300\<close> or \<open>d \<ge> 6000\<close> (so also for \<open>d = 0\<close>), the displayed pixel equals the
  aligned colour pixel, in all three channels.
\<close>

theorem out_of_range_pixel_unchanged:
  assumes "aligned prj st fr = Inr (colorA, depthA)"
    and "i < rows depthA" "j < cols depthA"
    and "unat (at_mat depthA i j) \<le> 300 \<or> 6000 \<le> unat (at_mat depthA i j)"
  shows "\<exists>st' out. process prj st fr = Inr (st', out) \<and>
           at_mat (shown out) i j = at_mat colorA i j"
  using shown_pixel[OF assms(1-3)] fusePixel_out_of_range[OF assms(4)] by simp

theorem out_of_range_pixel_unchanged_witness:
  "aligned tableProjection (exState True) (exFrame 0) = Inr (grayImage, depthImage 0)
   \<and> 0 < rows (depthImage 0) \<and> 0 < cols (depthImage 0)
   \<and> unat (at_mat (depthImage 0) 0 0) \<le> 300
   \<and> (\<exists>st' out. process tableProjection (exState True) (exFrame 0) = Inr (st', out) \<and>
         at_mat (shown out) 0 0 = gray)"
  using out_of_range_pixel_unchanged[of tableProjection "exState True" "exFrame 0"
      grayImage "depthImage 0" 0 0]
  by (simp add: aligned_exFrame)

text \<open>
  Claim C9.  With the colour pixel held fixed, the fused green channel does not increase
  when the aligned depth grows within \<open>300 < d < 6000\<close>: of two frames processed in the
  same state whose aligned colour agrees at a pixel, the one with the larger depth there
  shows a green channel that is not larger.
\<close>

theorem fused_green_nonincreasing:
  assumes "aligned prj st fr1 = Inr (color1, depth1)"
    and "aligned prj st fr2 = Inr (color2, depth2)"
    and "i < rows depth1" "j < cols depth1"
    and "at_mat color1 i j = at_mat color2 i j"
    and "300 < unat (at_mat depth1 i j)"
    and "unat (at_mat depth1 i j) \<le> unat (at_mat depth2 i j)"
    and "unat (at_mat depth2 i j) < 6000"
  shows "\<exists>st1 out1 st2 out2.
           process prj st fr1 = Inr (st1, out1) \<and> process prj st fr2 = Inr (st2, out2) \<and>
           ch1 (at_mat (shown out2) i j) \<le> ch1 (at_mat (shown out1) i j)"
proof -
  have ij2: "i < rows depth2" "j < cols depth2"
    using assms(3,4) aligned_dims(3,4)[OF assms(1)] aligned_dims(3,4)[OF assms(2)] by simp_all
  from shown_pixel[OF assms(1,3,4)] obtain st1 out1 where
    p1: "process prj st fr1 = Inr (st1, out1)"
      "at_mat (shown out1) i j = fusePixel (at_mat color1 i j) (at_mat depth1 i j)"
    by blast
  from shown_pixel[OF assms(2) ij2] obtain st2 out2 where
    p2: "process prj st fr2 = Inr (st2, out2)"
      "at_mat (shown out2) i j = fusePixel (at_mat color2 i j) (at_mat depth2 i j)"
    by blast
  have "ch1 (at_mat (shown out2) i j) \<le> ch1 (at_mat (shown out1) i j)"
    unfolding p1(2) p2(2) assms(5) by (rule fusePixel_antimono[OF assms(6-8)])
  with p1(1) p2(1) show ?thesis by blast
qed

theorem fused_green_nonincreasing_witness:
  "aligned tableProjection (exState False) (exFrame 1000) = Inr (grayImage, depthImage 1000)
   \<and> aligned tableProjection (exState False) (exFrame 2000) = Inr (grayImage, depthImage 2000)
   \<and> 0 < rows (depthImage 1000) \<and> 0 < cols (depthImage 1000)
   \<and> 300 < unat (at_mat (depthImage 1000) 0 0)
   \<and> unat (at_mat (depthImage 1000) 0 0) \<le> unat (at_mat (depthImage 2000) 0 0)
   \<and> unat (at_mat (depthImage 2000) 0 0) < 6000
   \<and> (\<exists>st1 out1 st2 out2.
         process tableProjection (exState False) (exFrame 1000) = Inr (st1, out1) \<and>
         process tableProjection (exState False) (exFrame 2000) = Inr (st2, out2) \<and>
         ch1 (at_mat (shown out2) 0 0) \<le> ch1 (at_mat (shown out1) 0 0))"
  using fused_green_nonincreasing[of tableProjection "exState False" "exFrame 1000"
      grayImage "depthImage 1000" "exFrame 2000" grayImage "depthImage 2000" 0 0]
  by (simp add: aligned_exFrame)

text \<open>
  Claim C10.  For every pixel and every aligned depth, the fusion step changes at most the
  green channel: channels 0 and 2 of the displayed pixel equal those of the aligned colour
  pixel, and its green channel is not less than the aligned colour's green channel.
\<close>

theorem fusion_changes_green_only:
  assumes "aligned prj st fr = Inr (colorA, depthA)"
    and "i < rows depthA" "j < cols depthA"
  shows "\<exists>st' out. process prj st fr = Inr (st', out) \<and>
           ch0 (at_mat (shown out) i j) = ch0 (at_mat colorA i j) \<and>
           ch2 (at_mat (shown out) i j) = ch2 (at_mat colorA i j) \<and>
           ch1 (at_mat colorA i j) \<le> ch1 (at_mat (shown out) i j)"
proof -
  from shown_pixel[OF assms] obtain st' out where
    p: "process prj st fr = Inr (st', out)"
      "at_mat (shown out) i j = fusePixel (at_mat colorA i j) (at_mat depthA i j)"
    by blast
  have "ch0 (fusePixel c d) = ch0 c" "ch2 (fusePixel c d) = ch2 c" for c d
    by (simp_all add: fusePixel_def)
  with p fusePixel_green_ge[of "at_mat colorA i j" "at_mat depthA i j"] show ?thesis
    by auto
qed

theorem fusion_changes_green_only_witness:
  "aligned tableProjection (exState True) (exFrame 1000) = Inr (grayImage, depthImage 1000)
   \<and> 0 < rows (depthImage 1000) \<and> 0 < cols (depthImage 1000)
   \<and> (\<exists>st' out. process tableProjection (exState True) (exFrame 1000) = Inr (st', out) \<and>
           ch0 (at_mat (shown out) 0 0) = 128 \<and>
           ch2 (at_mat (shown out) 0 0) = 128 \<and>
           128 \<le> ch1 (at_mat (shown out) 0 0))"
  using fusion_changes_green_only[of tableProjection "exState True" "exFrame 1000"
      grayImage "depthImage 1000" 0 0]
  by (simp add: aligned_exFrame gray_def)

lemma exState_fields [simp]:
  "colorCamera (exState r) = exCam 1 1" "depthCamera (exState r) = exCam 1 1"
  "numFrames (exState r) = 0" "saveToDisk (exState r) = r"
  by (simp_all add: exState_def)

text \<open>
  Claim C3.  When \<open>frame.depth\<close> is empty, the depth grid is synthesized at the native
  resolution of the depth stream, starting from zeros.  A point without a valid projection
  contributes nothing (removing such points leaves the grid unchanged); a point with a
  valid projection writes its quantized distance at its pixel, the last write winning;
  a pixel never written stays zero.  The aligned depth is this grid, resized.  The
  projection reports pixels inside the grid, which is its contract.
\<close>

theorem depth_synthesized_from_cloud:
  assumes "mat_empty (depth fr)"
    and "list_all (inFrame prj (depthCamera st)) (cloud fr)"
  shows "\<exists>g. synthDepth prj (depthCamera st) (cloud fr) = Inr g \<and>
           rows g = cam_h (depthCamera st) \<and> cols g = cam_w (depthCamera st) \<and>
           (\<forall>i<cam_h (depthCamera st). \<forall>j<cam_w (depthCamera st).
              at_mat g i j = lastHit prj (depthCamera st) (cloud fr) i j) \<and>
           synthDepth prj (depthCamera st)
             (filter (\<lambda>p. prj p (depthCamera st) \<noteq> None) (cloud fr)) = Inr g \<and>
           synthDepth prj (depthCamera st) ([] :: 'a list)
             = Inr (zeros (cam_h (depthCamera st)) (cam_w (depthCamera st)) 0) \<and>
           aligned prj st fr =
             (case resizeImg (color fr)
                     (min (cam_w (colorCamera st)) (cam_w (depthCamera st)))
                     (min (cam_h (colorCamera st)) (cam_h (depthCamera st))) of
                Inl e \<Rightarrow> Inl e
              | Inr c \<Rightarrow>
                  (case resizeImg g
                          (min (cam_w (colorCamera st)) (cam_w (depthCamera st)))
                          (min (cam_h (colorCamera st)) (cam_h (depthCamera st))) of
                     Inl e \<Rightarrow> Inl e
                   | Inr d \<Rightarrow> Inr (c, d)))"
proof -
  have "\<forall>p\<in>set (cloud fr). inFrame prj (depthCamera st) p"
    using assms(2) by (simp add: list_all_iff)
  from synthDepth_spec[OF this] obtain g where g:
    "synthDepth prj (depthCamera st) (cloud fr) = Inr g"
    "rows g = cam_h (depthCamera st)" "cols g = cam_w (depthCamera st)"
    "\<forall>i<cam_h (depthCamera st). \<forall>j<cam_w (depthCamera st).
        at_mat g i j = lastHit prj (depthCamera st) (cloud fr) i j"
    by blast
  have skip: "synthDepth prj (depthCamera st)
             (filter (\<lambda>p. prj p (depthCamera st) \<noteq> None) (cloud fr)) = Inr g"
    using g(1) by (simp only: synthDepth_def projectCloud_skip)
  have al: "aligned prj st fr =
             (case resizeImg (color fr)
                     (min (cam_w (colorCamera st)) (cam_w (depthCamera st)))
                     (min (cam_h (colorCamera st)) (cam_h (depthCamera st))) of
                Inl e \<Rightarrow> Inl e
              | Inr c \<Rightarrow>
                  (case resizeImg g
                          (min (cam_w (colorCamera st)) (cam_w (depthCamera st)))
                          (min (cam_h (colorCamera st)) (cam_h (depthCamera st))) of
                     Inl e \<Rightarrow> Inl e
                   | Inr d \<Rightarrow> Inr (c, d)))"
    using assms(1) g(1) by (simp add: aligned_def Let_def split: sum.splits)
  have "synthDepth prj (depthCamera st) ([] :: 'a list)
             = Inr (zeros (cam_h (depthCamera st)) (cam_w (depthCamera st)) 0)"
    by (simp add: synthDepth_def)
  with g skip al show ?thesis by blast
qed

theorem depth_synthesized_from_cloud_witness:
  "mat_empty (depth (cloudFrame [Some (0, 0, 5), None, Some (0, 0, 7)]))
   \<and> list_all (inFrame tableProjection (depthCamera (exState False)))
        (cloud (cloudFrame [Some (0, 0, 5), None, Some (0, 0, 7)]))
   \<and> (\<exists>g. synthDepth tableProjection (depthCamera (exState False))
              (cloud (cloudFrame [Some (0, 0, 5), None, Some (0, 0, 7)])) = Inr g
         \<and> rows g = 1 \<and> cols g = 1 \<and> at_mat g 0 0 = 7
         \<and> synthDepth tableProjection (depthCamera (exState False))
              [Some (0, 0, 5), Some (0, 0, 7)] = Inr g)"
  using depth_synthesized_from_cloud[of "cloudFrame [Some (0, 0, 5), None, Some (0, 0, 7)]"
      tableProjection "exState False"]
  by (auto simp: cloudFrame_def mat_empty_def inFrame_def tableProjection_def exState_def
      exCam_def lastHit_def hits_def map_filter_simps)

text \<open>
  Claim C4, as the code computes it.  When recording is enabled, the false-colour image is
  passed through \<open>cv::resize\<close> with an empty target size and the scale factors 1 and 1
  before it is written: the written image is the false-colour image itself, at the
  resolution of the aligned depth grid.  Nothing is upsampled.  The sizes of the grid are
  those of a \<open>cv::Mat\<close>, which are C++ \<open>int\<close>s.
\<close>

theorem recorded_image_keeps_resolution:
  assumes "aligned prj st fr = Inr (colorA, depthA)" "saveToDisk st"
    and "\<not> mat_empty depthA" "rows depthA < 2 ^ 31" "cols depthA < 2 ^ 31"
  shows "\<exists>st' out. process prj st fr = Inr (st', out) \<and>
           written out = Some (fileName (numFrames st), prettyDepth depthA) \<and>
           rows (prettyDepth depthA) = rows depthA \<and> cols (prettyDepth depthA) = cols depthA"
proof -
  have b: "rows (prettyDepth depthA) < 2 ^ 53" "cols (prettyDepth depthA) < 2 ^ 53"
    using assms(4,5) by (simp_all add: prettyDepth_spec(2,3))
  have "\<not> mat_empty (prettyDepth depthA)"
    using assms(3) by (simp add: mat_empty_def prettyDepth_spec(2,3))
  from cv_resize_unit[OF prettyDepth_spec(1) this b]
  have "cv_resize (prettyDepth depthA) (0, 0) 1 1 = Inr (prettyDepth depthA)" .
  from process_saving[OF assms(1,2) this] show ?thesis
    by (simp add: prettyDepth_spec(2,3))
qed

lemma process_exFrame_saving:
  assumes "colorCamera st = exCam 1 1" "depthCamera st = exCam 1 1" "saveToDisk st"
  shows "process prj st (exFrame d) =
           Inr (st\<lparr>numFrames := numFrames st + 1\<rparr>,
                \<lparr>shown = \<lparr>rows = 1, cols = 1, data = [fusePixel gray d]\<rparr>,
                 written = Some (fileName (numFrames st), prettyDepth (depthImage d))\<rparr>)"
proof -
  have "wf_mat (prettyDepth (depthImage d))" by (rule prettyDepth_spec(1))
  moreover have "\<not> mat_empty (prettyDepth (depthImage d))"
    by (simp add: mat_empty_def prettyDepth_spec(2,3))
  moreover have "rows (prettyDepth (depthImage d)) < 2 ^ 53"
    "cols (prettyDepth (depthImage d)) < 2 ^ 53"
    by (simp_all add: prettyDepth_spec(2,3))
  ultimately have "cv_resize (prettyDepth (depthImage d)) (0, 0) 1 1
      = Inr (prettyDepth (depthImage d))" by (rule cv_resize_unit)
  from process_saving[OF aligned_exFrame_gen[OF assms(1,2)] assms(3) this]
  show ?thesis by (simp add: fusion_one_pixel[unfolded One_nat_def])
qed

text \<open>
  Claim C4 as stated fails on a frame of one pixel: the aligned depth grid is 1 by 1 and
  so is the written image.
\<close>

theorem recorded_image_upsampled_counterexample:
  "aligned tableProjection (exState True) (exFrame 1000) = Inr (grayImage, depthImage 1000)
   \<and> process tableProjection (exState True) (exFrame 1000)
       = Inr ((exState True)\<lparr>numFrames := 1\<rparr>,
              \<lparr>shown = \<lparr>rows = 1, cols = 1, data = [\<lparr>ch0 = 128, ch1 = 161, ch2 = 128\<rparr>]\<rparr>,
               written = Some (fileName 0, prettyDepth (depthImage 1000))\<rparr>)
   \<and> rows (depthImage 1000) = 1 \<and> cols (depthImage 1000) = 1
   \<and> rows (prettyDepth (depthImage 1000)) = 1 \<and> cols (prettyDepth (depthImage 1000)) = 1"
proof -
  have "fusePixel gray 1000 = \<lparr>ch0 = 128, ch1 = 161, ch2 = 128\<rparr>"
    by (simp add: fusePixel_def outOfRange_iff depthColor_1000 gray_def)
  then show ?thesis
    using process_exFrame_saving[of "exState True" tableProjection 1000]
    by (simp add: aligned_exFrame prettyDepth_spec(2,3))
qed

theorem recorded_image_keeps_resolution_witness:
  "aligned tableProjection (exState True) (exFrame 0) = Inr (grayImage, depthImage 0)
   \<and> saveToDisk (exState True) \<and> \<not> mat_empty (depthImage 0)
   \<and> rows (depthImage 0) < 2 ^ 31 \<and> cols (depthImage 0) < 2 ^ 31
   \<and> (\<exists>st' out. process tableProjection (exState True) (exFrame 0) = Inr (st', out) \<and>
         written out = Some (fileName 0, prettyDepth (depthImage 0)) \<and>
         rows (prettyDepth (depthImage 0)) = 1 \<and> cols (prettyDepth (depthImage 0)) = 1)"
  using recorded_image_keeps_resolution[of tableProjection "exState True" "exFrame 0"
      grayImage "depthImage 0"]
  by (simp add: aligned_exFrame mat_empty_def)

text \<open>
  Claim C5.  When recording is enabled, the pixel of the written false-colour image is black
  where the aligned depth is 0; elsewhere the depth is clamped into \<open>[800, 2500]\<close> and
  each channel is the linear interpolation between the near and the far colour at the
  position of the clamped depth in that range, to the nearest 8-bit value (at most one
  half away from the exact interpolation).  The sizes of the grid are those of a
  \<open>cv::Mat\<close>, which are C++ \<open>int\<close>s.
\<close>

theorem false_color_image:
  assumes "aligned prj st fr = Inr (colorA, depthA)" "saveToDisk st"
    and "rows depthA < 2 ^ 31" "cols depthA < 2 ^ 31"
    and "i < rows depthA" "j < cols depthA"
  shows "\<exists>st' out img. process prj st fr = Inr (st', out) \<and>
           written out = Some (fileName (numFrames st), img) \<and>
           (at_mat depthA i j = 0 \<longrightarrow> at_mat img i j = vec3b_zero) \<and>
           (at_mat depthA i j \<noteq> 0 \<longrightarrow>
              800 \<le> clampDepth (at_mat depthA i j) \<and> clampDepth (at_mat depthA i j) \<le> 2500 \<and>
              \<bar>real (unat (ch0 (at_mat img i j)))
                 - interpolate closeColor farColor
                     ((clampDepth (at_mat depthA i j) - 800) / 1700) ch0\<bar> \<le> 1 / 2 \<and>
              real (unat (ch1 (at_mat img i j)))
                 = interpolate closeColor farColor
                     ((clampDepth (at_mat depthA i j) - 800) / 1700) ch1 \<and>
              \<bar>real (unat (ch2 (at_mat img i j)))
                 - interpolate closeColor farColor
                     ((clampDepth (at_mat depthA i j) - 800) / 1700) ch2\<bar> \<le> 1 / 2)"
proof -
  have ne: "\<not> mat_empty depthA" using assms(5,6) by (simp add: mat_empty_def)
  have b: "rows (prettyDepth depthA) < 2 ^ 53" "cols (prettyDepth depthA) < 2 ^ 53"
    using assms(3,4) by (simp_all add: prettyDepth_spec(2,3))
  have "\<not> mat_empty (prettyDepth depthA)"
    using ne by (simp add: mat_empty_def prettyDepth_spec(2,3))
  from cv_resize_unit[OF prettyDepth_spec(1) this b]
  have "cv_resize (prettyDepth depthA) (0, 0) 1 1 = Inr (prettyDepth depthA)" .
  from process_saving[OF assms(1,2) this] obtain st' out where
    p: "process prj st fr = Inr (st', out)"
      "written out = Some (fileName (numFrames st), prettyDepth depthA)"
    by simp
  have px: "at_mat (prettyDepth depthA) i j
      = (if at_mat depthA i j = 0 then vec3b_zero else finalColor (at_mat depthA i j))"
    using assms(5,6) by (rule prettyDepth_spec(4))
  have cl: "800 \<le> clampDepth d" "clampDepth d \<le> 2500" for d
    by (simp_all add: clampDepth_def)
  show ?thesis
    using p px cl finalColor_interpolate[of "at_mat depthA i j"] by auto
qed

theorem false_color_image_witness:
  "aligned tableProjection (exState True) (exFrame 1000) = Inr (grayImage, depthImage 1000)
   \<and> saveToDisk (exState True)
   \<and> rows (depthImage 1000) < 2 ^ 31 \<and> cols (depthImage 1000) < 2 ^ 31
   \<and> 0 < rows (depthImage 1000) \<and> 0 < cols (depthImage 1000)
   \<and> (\<exists>st' out img. process tableProjection (exState True) (exFrame 1000) = Inr (st', out) \<and>
         written out = Some (fileName 0, img) \<and>
         \<bar>real (unat (ch0 (at_mat img 0 0))) - 30\<bar> \<le> 1 / 2 \<and>
         real (unat (ch1 (at_mat img 0 0))) = 0 \<and>
         \<bar>real (unat (ch2 (at_mat img 0 0))) - 225\<bar> \<le> 1 / 2)"
  using false_color_image[of tableProjection "exState True" "exFrame 1000"
      grayImage "depthImage 1000" 0 0]
  by (simp add: aligned_exFrame clampDepth_def interpolate_def
      closeColor_def farColor_def)

subsection \<open>The nearest-neighbour offsets in double precision\<close>








text \<open>
  Claim C7, as the code computes it.  The frame counter is 0 after \<open>init\<close> and every call
  of \<open>process\<close> that returns adds one to it, recording or not.  So the call number \<open>k\<close>
  (from 0), when recording, writes the file whose index is \<open>k\<close> padded with zeros to at
  least 8 digits: exactly 8 digits while \<open>k < 10^8\<close>, more beyond.  The indices are
  strictly increasing and the first file is \<open>00000000_frame.bmp\<close>.
\<close>

theorem frame_counter_and_file_names:
  assumes "init polls cparams dparams st0 = Some st"
    and "processAll prj st frs = Inr (st', outs)"
  shows "(\<forall>s fr s' out. process prj s fr = Inr (s', out) \<longrightarrow>
            numFrames s' = numFrames s + 1 \<and> saveToDisk s' = saveToDisk s) \<and>
         numFrames st = 0 \<and> numFrames st' = length frs \<and> length outs = length frs \<and>
         (\<forall>k<length frs.
            (saveToDisk st \<longrightarrow>
               (\<exists>img. written (outs ! k)
                  = Some (path @ setw_fill 8 (CHR ''0'') (decimal k) @ ''_frame.bmp'', img))) \<and>
            (\<not> saveToDisk st \<longrightarrow> written (outs ! k) = None)) \<and>
         (\<forall>k. digitsValue (setw_fill 8 (CHR ''0'') (decimal k)) = k \<and>
              list_all isDigit (setw_fill 8 (CHR ''0'') (decimal k)) \<and>
              8 \<le> length (setw_fill 8 (CHR ''0'') (decimal k)) \<and>
              (k < 10 ^ 8 \<longrightarrow> length (setw_fill 8 (CHR ''0'') (decimal k)) = 8)) \<and>
         (\<forall>k l. k < l \<longrightarrow>
              digitsValue (setw_fill 8 (CHR ''0'') (decimal k))
                < digitsValue (setw_fill 8 (CHR ''0'') (decimal l))) \<and>
         setw_fill 8 (CHR ''0'') (decimal 0) = ''00000000''"
proof -
  have step: "\<forall>s fr s' out. process prj s fr = Inr (s', out) \<longrightarrow>
            numFrames s' = numFrames s + 1 \<and> saveToDisk s' = saveToDisk s"
    using process_step(1) by fastforce
  have n0: "numFrames st = 0"
    using assms(1) by (auto simp: init_def split: if_splits)
  note all = processAll_spec[OF assms(2)]
  have names: "\<forall>k<length frs.
            (saveToDisk st \<longrightarrow>
               (\<exists>img. written (outs ! k)
                  = Some (path @ setw_fill 8 (CHR ''0'') (decimal k) @ ''_frame.bmp'', img))) \<and>
            (\<not> saveToDisk st \<longrightarrow> written (outs ! k) = None)"
    using all n0 by (simp add: fileName_def)
  have idx: "\<forall>k. digitsValue (setw_fill 8 (CHR ''0'') (decimal k)) = k \<and>
              list_all isDigit (setw_fill 8 (CHR ''0'') (decimal k)) \<and>
              8 \<le> length (setw_fill 8 (CHR ''0'') (decimal k)) \<and>
              (k < 10 ^ 8 \<longrightarrow> length (setw_fill 8 (CHR ''0'') (decimal k)) = 8)"
    using index_digits by (simp del: list_all_append)
  have z: "setw_fill 8 (CHR ''0'') (decimal 0) = ''00000000''" by code_simp
  from step n0 all names idx z show ?thesis by (simp add: index_digits(1))
qed

lemma prettyDepth_zero:
  "prettyDepth (depthImage 0) = \<lparr>rows = 1, cols = 1, data = [vec3b_zero]\<rparr>"
  by (simp add: prettyDepth_def prettyStep_def depthImage_def zeros_def at_mat_def)

lemma decimal_10_8: "decimal 100000000 = ''100000000''"
  by (simp add: decimal.simps char_of_def bit_Suc_0_iff)

text \<open>
  Claim C7 as stated fails at the call number \<open>10^8\<close>: the width 8 of \<open>std::setw\<close> is a
  minimum, and the index written has 9 digits.
\<close>

theorem eight_digit_index_counterexample:
  "process tableProjection ((exState True)\<lparr>numFrames := 100000000\<rparr>) (exFrame 0)
     = Inr ((exState True)\<lparr>numFrames := 100000001\<rparr>,
            \<lparr>shown = \<lparr>rows = 1, cols = 1, data = [gray]\<rparr>,
             written = Some (path @ ''100000000_frame.bmp'',
                             \<lparr>rows = 1, cols = 1, data = [vec3b_zero]\<rparr>)\<rparr>)
   \<and> length ''100000000'' = 9"
proof -
  have "fusePixel gray 0 = gray" by (simp add: fusePixel_def outOfRange_iff)
  then show ?thesis
    using process_exFrame_saving[of "(exState True)\<lparr>numFrames := 100000000\<rparr>" tableProjection 0]
    by (simp add: prettyDepth_zero fileName_def setw_fill_def decimal_10_8)
qed

theorem frame_counter_and_file_names_witness:
  "init [(False, False), (False, True)] (exCam 1 1) (exCam 1 1) (exState True)
     = Some (exState True)
   \<and> processAll tableProjection (exState True) [exFrame 1000, exFrame 0]
       = Inr ((exState True)\<lparr>numFrames := 2\<rparr>,
              [\<lparr>shown = \<lparr>rows = 1, cols = 1, data = [fusePixel gray 1000]\<rparr>,
                written = Some (fileName 0, prettyDepth (depthImage 1000))\<rparr>,
               \<lparr>shown = \<lparr>rows = 1, cols = 1, data = [fusePixel gray 0]\<rparr>,
                written = Some (fileName 1, prettyDepth (depthImage 0))\<rparr>])
   \<and> numFrames ((exState True)\<lparr>numFrames := 2\<rparr>) = length [exFrame 1000, exFrame 0]
   \<and> setw_fill 8 (CHR ''0'') (decimal 0) = ''00000000''"
proof -
  have i: "init [(False, False), (False, True)] (exCam 1 1) (exCam 1 1) (exState True)
     = Some (exState True)"
    by (simp add: init_def exState_def)
  have p: "processAll tableProjection (exState True) [exFrame 1000, exFrame 0]
       = Inr ((exState True)\<lparr>numFrames := 2\<rparr>,
              [\<lparr>shown = \<lparr>rows = 1, cols = 1, data = [fusePixel gray 1000]\<rparr>,
                written = Some (fileName 0, prettyDepth (depthImage 1000))\<rparr>,
               \<lparr>shown = \<lparr>rows = 1, cols = 1, data = [fusePixel gray 0]\<rparr>,
                written = Some (fileName 1, prettyDepth (depthImage 0))\<rparr>])"
    by (simp add: process_exFrame_saving)
  from frame_counter_and_file_names[OF i p] i p show ?thesis by simp
qed

text \<open>
  Claim C8.  In the loop of the grabber, a sample without a sample object, without a colour
  or depth buffer, or with a failed buffer access is logged as an error and skipped: the
  queues are left as they were and the loop goes on with the next answer of the sensor.
  An acquire status below the threshold ends the loop, whatever follows.  The frames in
  every queue are exactly those of the samples that were not skipped.
\<close>

theorem grabber_skips_and_stops:
  "(acquiredOk a \<and> transient a \<longrightarrow>
      grabber_run (a # evs) g = grabber_run evs (grabBody a g) \<and>
      queues (grabBody a g) = queues g \<and>
      (\<exists>es e. tlog (grabBody a g) = tlog g @ es @ [e] \<and> is_error e)) \<and>
   (\<not> acquiredOk a \<longrightarrow>
      snd (grabber_run (a # evs) g) = Finished (acquire_status a) \<and>
      queues (fst (grabber_run (a # evs) g)) = queues g) \<and>
   queues (fst (grabber_run evs g)) = map (\<lambda>q. q @ delivered evs) (queues g) \<and>
   snd (grabber_run evs g) =
     (case dropWhile acquiredOk evs of [] \<Rightarrow> AwaitingSample
      | b # rest \<Rightarrow> Finished (acquire_status b))"
  using grabBody_transient[of a g] grabber_run_queues[of evs g] grabber_run_state[of evs g]
  by (simp add: acquiredOk_def)

theorem grabber_skips_and_stops_witness:
  "acquiredOk (exSample 0 (- 1) 0) \<and> transient (exSample 0 (- 1) 0)
   \<and> queues (grabBody (exSample 0 (- 1) 0) exGrabber) = [[], []]
   \<and> \<not> acquiredOk (exSample (- 3) 0 0)
   \<and> snd (grabber_run [exSample (- 3) 0 0, exSample 0 0 0] exGrabber) = Finished (- 3)
   \<and> queues (fst (grabber_run [exSample (- 3) 0 0, exSample 0 0 0] exGrabber)) = [[], []]
   \<and> queues (fst (grabber_run
         [exSample 0 (- 1) 0, exSample 0 0 0, exSample (- 3) 0 0, exSample 0 0 0] exGrabber))
       = [[makeFrame (exImage gray 0) (exImage 1000 0)],
          [makeFrame (exImage gray 0) (exImage 1000 0)]]"
  using grabber_skips_and_stops[of "exSample 0 (- 1) 0" "[]" exGrabber]
    grabber_skips_and_stops[of "exSample (- 3) 0 0" "[exSample 0 0 0]" exGrabber]
    grabber_skips_and_stops[of "exSample 0 0 0"
      "[exSample 0 (- 1) 0, exSample 0 0 0, exSample (- 3) 0 0, exSample 0 0 0]" exGrabber]
  by (simp add: acquiredOk_def transient_def exSample_def exImage_def exGrabber_def
      PXC_STATUS_NO_ERROR_def delivered_def frameOf_def map_filter_simps)

end
